theory Spec2Isabelle
  imports Main
begin

section \<open>Replay buffers of \<^verbatim>\<open>sheeprl/data/buffers.py\<close>\<close>

text \<open>
  The module defines \<^verbatim>\<open>ReplayBuffer\<close>, a circular table of \<^verbatim>\<open>buffer_size\<close> slots for
  \<^verbatim>\<open>n_envs\<close> environments, and its subclass \<^verbatim>\<open>SequentialReplayBuffer\<close>, which samples
  windows of consecutive slots. Python integers are unbounded, so every index, size and
  cursor is an \<^typ>\<open>int\<close>; \<^verbatim>\<open>%\<close> with a positive divisor is \<^term>\<open>(mod)\<close> on \<^typ>\<open>int\<close>.
\<close>

subsection \<open>Errors\<close>

text \<open>
  The source raises \<^verbatim>\<open>ValueError\<close> and \<^verbatim>\<open>RuntimeError\<close> with distinct messages. Each raise
  site is one constructor, named after the condition it reports:
  \<^item> \<open>InvalidArgument\<close>: "The buffer size must be greater than zero", "The number of
    environments must be greater than zero", "Batch size must be greater than 0";
  \<^item> \<open>ShapeError\<close>: "`data` must have 2 batch dimensions";
  \<^item> \<open>EmptyBufferError\<close>: "No sample has been added to the buffer";
  \<^item> \<open>InsufficientDataError\<close>: "You want to sample the next observations, but one sample
    has been added to the buffer" and "n_samples * batch size is larger than sampleable
    items";
  \<^item> \<open>CapacityError\<close>: "n_samples * batch size is larger than the replay buffer size" and
    "too long sequence length";
  \<^item> \<open>UninitializedStorageError\<close>: "The buffer has not been initialized";
  \<^item> \<open>BackendError\<close>: an exception raised inside torch or tensordict (an empty range given
    to \<^verbatim>\<open>randint\<close>, an index out of bounds or not of integers, an indexed assignment
    whose source does not expand to the destination, a missing field, a negative size, a
    view with an empty dimension).
\<close>

datatype error =
    InvalidArgument
  | ShapeError
  | EmptyBufferError
  | InsufficientDataError
  | CapacityError
  | UninitializedStorageError
  | BackendError

subsection \<open>Python lists and ranges\<close>

text \<open>\<^verbatim>\<open>range(a, b)\<close>: the integers from \<open>a\<close> up to \<open>b - 1\<close>, empty when \<open>b \<le> a\<close>.\<close>

definition py_range :: "int \<Rightarrow> int \<Rightarrow> int list" where
  "py_range a b = [a..b - 1]"

text \<open>
  An index into a sequence of \<open>n\<close> elements: Python and torch count a negative index from
  the end, and raise when the position is outside \<open>[0, n)\<close>.
\<close>

definition py_position :: "int \<Rightarrow> int \<Rightarrow> nat option" where
  "py_position n i =
     (if 0 \<le> i then (if i < n then Some (nat i) else None)
      else (if - n \<le> i then Some (nat (n + i)) else None))"

definition py_get :: "'a list \<Rightarrow> int \<Rightarrow> 'a option" where
  "py_get xs i = map_option (nth xs) (py_position (int (length xs)) i)"

text \<open>\<^verbatim>\<open>xs[start:]\<close>: a negative start counts from the end and is clamped at the front.\<close>

definition slice_from :: "int \<Rightarrow> 'a list \<Rightarrow> 'a list" where
  "slice_from start xs =
     (if start < 0 then drop (nat (int (length xs) + start)) xs else drop (nat start) xs)"

text \<open>All results present, or the backend's exception.\<close>

fun collect :: "'a option list \<Rightarrow> error + 'a list" where
  "collect [] = Inr []"
| "collect (None # xs) = Inl BackendError"
| "collect (Some x # xs) = (case collect xs of Inl e \<Rightarrow> Inl e | Inr ys \<Rightarrow> Inr (x # ys))"

subsection \<open>The random source\<close>

text \<open>
  The generator is the stream of raw words it will still produce.
  \<^verbatim>\<open>torch.randint(low, high, size=(n,))\<close> raises when the range is empty and otherwise
  consumes \<open>n\<close> words, each reduced into \<open>[low, high)\<close>; every outcome of the draw is the
  image of some stream.
\<close>

type_synonym rng = "nat \<Rightarrow> nat"

definition randint :: "int \<Rightarrow> int \<Rightarrow> int \<Rightarrow> rng \<Rightarrow> error + int list \<times> rng" where
  "randint low high n g =
     (if high \<le> low then Inl BackendError
      else if n < 0 then Inl BackendError
      else Inr (map (\<lambda>i. low + int (g i) mod (high - low)) [0..<nat n], \<lambda>i. g (i + nat n)))"

text \<open>\<^verbatim>\<open>torch.arange(n)\<close>: \<open>0, \<dots>, n - 1\<close>; a negative bound raises.\<close>

definition arange :: "int \<Rightarrow> error + int list" where
  "arange n = (if n < 0 then Inl BackendError else Inr (py_range 0 n))"

subsection \<open>The storage backend\<close>

text \<open>
  A \<^verbatim>\<open>TensorDict\<close> with two batch dimensions is a grid of records: \<open>rows t ! i ! e\<close> is the
  record (all fields) at slot \<open>i\<close> of environment \<open>e\<close>, and \<open>shape t\<close> is its batch size.
  The fields of a record are opaque; the one field the samplers name, "observations", is
  read through a projection given to them. A freshly allocated table is zero-filled.
\<close>

record 'a tensordict =
  shape :: "int list"
  rows :: "'a list list"

definition td_zeros :: "int \<Rightarrow> int \<Rightarrow> ('a::zero) tensordict" where
  "td_zeros n e = \<lparr>shape = [n, e], rows = replicate (nat n) (replicate (nat e) 0)\<rparr>"

text \<open>\<^verbatim>\<open>data[start:]\<close> on the leading batch dimension.\<close>

definition td_slice_from :: "int \<Rightarrow> 'a tensordict \<Rightarrow> 'a tensordict" where
  "td_slice_from start d =
     (let rs = slice_from start (rows d) in \<lparr>shape = int (length rs) # tl (shape d), rows = rs\<rparr>)"

text \<open>
  A \<^verbatim>\<open>TensorDict\<close> of batch size \<open>[n, e]\<close>: \<open>n\<close> rows of \<open>e\<close> records each.
\<close>

definition td_of_shape :: "'a tensordict \<Rightarrow> int \<Rightarrow> int \<Rightarrow> bool" where
  "td_of_shape t n e =
     (shape t = [n, e] \<and> int (length (rows t)) = n \<and> list_all (\<lambda>r. int (length r) = e) (rows t))"

text \<open>
  \<^verbatim>\<open>torch.tensor(xs)\<close> of a list or range of Python integers: the element type is inferred
  from the elements, 64-bit integers when there is one, and the default \<^verbatim>\<open>float32\<close> when
  there is none. A tensor of floats cannot be used as an index.
\<close>

datatype index_tensor = Int64Tensor "int list" | Float32Tensor

definition torch_tensor :: "int list \<Rightarrow> index_tensor" where
  "torch_tensor xs = (if xs = [] then Float32Tensor else Int64Tensor xs)"

text \<open>
  The source of an indexed assignment is expanded to the batch size \<open>[k, e]\<close> of the
  destination: each of its two batch sizes must be the destination's or 1, and a size of 1
  is repeated.
\<close>

definition expand_envs :: "int \<Rightarrow> 'a list \<Rightarrow> 'a list" where
  "expand_envs e r = (if int (length r) = e then r else replicate (nat e) (r ! 0))"

definition expand_rows :: "int \<Rightarrow> 'a list list \<Rightarrow> 'a list list" where
  "expand_rows k rs = (if int (length rs) = k then rs else replicate (nat k) (rs ! 0))"

definition td_expand :: "'a tensordict \<Rightarrow> int \<Rightarrow> int \<Rightarrow> 'a list list option" where
  "td_expand v k e =
     (let k' = int (length (rows v))
      in if (k' = k \<or> k' = 1) \<and> (td_of_shape v k' e \<or> td_of_shape v k' 1)
         then Some (expand_rows k (map (expand_envs e) (rows v)))
         else None)"

text \<open>
  \<^verbatim>\<open>t[idxes, :] = v\<close>: the index must be a tensor of integers, each a position of the
  table, and the source must expand to one row per index and the table's environment
  count; the rows are then stored in order, so that of two rows sent to the same slot the
  later one stays.
\<close>

fun store_rows :: "(nat option \<times> 'a list) list \<Rightarrow> 'a list list \<Rightarrow> error + 'a list list" where
  "store_rows [] rs = Inr rs"
| "store_rows ((None, r) # ps) rs = Inl BackendError"
| "store_rows ((Some i, r) # ps) rs = store_rows ps (rs[i := r])"

definition td_set_rows ::
  "'a tensordict \<Rightarrow> index_tensor \<Rightarrow> 'a tensordict \<Rightarrow> error + 'a tensordict" where
  "td_set_rows t idx v =
     (case idx of
        Float32Tensor \<Rightarrow> Inl BackendError
      | Int64Tensor idxes \<Rightarrow>
          (case tl (shape t) of
             [] \<Rightarrow> Inl BackendError
           | e # _ \<Rightarrow>
               (case td_expand v (int (length idxes)) e of
                  None \<Rightarrow> Inl BackendError
                | Some rs \<Rightarrow>
                    (case store_rows (zip (map (py_position (int (length (rows t)))) idxes) rs)
                            (rows t) of
                       Inl x \<Rightarrow> Inl x
                     | Inr rs' \<Rightarrow> Inr (t\<lparr>rows := rs'\<rparr>)))))"

text \<open>\<^verbatim>\<open>t[i, e]\<close> for one pair of indices, and \<^verbatim>\<open>t[idxes, envs]\<close> for two index tensors.\<close>

definition td_cell :: "'a tensordict \<Rightarrow> int \<Rightarrow> int \<Rightarrow> 'a option" where
  "td_cell t i e = (case py_get (rows t) i of None \<Rightarrow> None | Some r \<Rightarrow> py_get r e)"

definition td_gather :: "'a tensordict \<Rightarrow> int list \<Rightarrow> int list \<Rightarrow> error + 'a list" where
  "td_gather t idxes envs =
     (if length idxes = length envs then collect (map (\<lambda>(i, e). td_cell t i e) (zip idxes envs))
      else Inl BackendError)"

subsection \<open>\<^verbatim>\<open>ReplayBuffer\<close>\<close>

record 'a replay_buffer =
  buffer_size :: int
  n_envs :: int
  memmap :: bool
  buf :: "'a tensordict option"
  pos :: int
  full :: bool

text \<open>\<^verbatim>\<open>ReplayBuffer.__init__\<close>: the table is allocated at once unless it is memory-mapped.\<close>

definition ReplayBuffer_init :: "int \<Rightarrow> int \<Rightarrow> bool \<Rightarrow> error + ('a::zero) replay_buffer" where
  "ReplayBuffer_init capacity envs mm =
     (if capacity \<le> 0 then Inl InvalidArgument
      else if envs \<le> 0 then Inl InvalidArgument
      else Inr \<lparr>buffer_size = capacity, n_envs = envs, memmap = mm,
                buf = (if mm then None else Some (td_zeros capacity envs)),
                pos = 0, full = False\<rparr>)"

text \<open>
  \<^verbatim>\<open>ReplayBuffer.add\<close>, for a \<^verbatim>\<open>TensorDictBase\<close> argument. The result is the outcome
  together with the object's state when the call ends: an exception leaves the fields as
  they were when it was raised.
\<close>

definition ReplayBuffer_add ::
  "('a::zero) replay_buffer \<Rightarrow> 'a tensordict \<Rightarrow> (error + unit) \<times> 'a replay_buffer" where
  "ReplayBuffer_add self data =
     (if length (shape data) \<noteq> 2 then (Inl ShapeError, self)
      else
        let data_len = hd (shape data);
            next_pos = (pos self + data_len) mod buffer_size self;
            idxes =
              (if next_pos < pos self \<or> (buffer_size self \<le> data_len \<and> \<not> full self)
               then torch_tensor (py_range (pos self) (buffer_size self) @ py_range 0 next_pos)
               else torch_tensor (py_range (pos self) next_pos));
            data_to_store =
              (if buffer_size self < data_len
               then td_slice_from (- buffer_size self - next_pos) data
               else data);
            self1 =
              (if memmap self \<and> buf self = None
               then self\<lparr>buf := Some (td_zeros (buffer_size self) (n_envs self))\<rparr>
               else self)
        in case buf self1 of
             None \<Rightarrow> (Inl BackendError, self1)
           | Some t \<Rightarrow>
               (case td_set_rows t idxes data_to_store of
                  Inl e \<Rightarrow> (Inl e, self1)
                | Inr t' \<Rightarrow>
                    (Inr (),
                     self1\<lparr>buf := Some t',
                           full := (if buffer_size self \<le> pos self + data_len then True
                                    else full self),
                           pos := next_pos\<rparr>)))"

text \<open>
  The indices \<^verbatim>\<open>ReplayBuffer.sample\<close> may draw when the buffer is full (the list
  \<^verbatim>\<open>valid_idxes\<close>), and the drawn \<^verbatim>\<open>batch_idxes\<close> in both branches. An index drawn by
  \<^verbatim>\<open>randint(0, len(valid_idxes))\<close> is a position of the list.
\<close>

definition ReplayBuffer_valid_idxes :: "'a replay_buffer \<Rightarrow> bool \<Rightarrow> int list" where
  "ReplayBuffer_valid_idxes self sample_next_obs =
     (let first_range_end = (if sample_next_obs then pos self - 1 else pos self);
          second_range_end =
            (if 0 \<le> first_range_end then buffer_size self
             else buffer_size self + first_range_end)
      in py_range 0 first_range_end @ py_range (pos self) second_range_end)"

definition ReplayBuffer_batch_idxes ::
  "'a replay_buffer \<Rightarrow> int \<Rightarrow> bool \<Rightarrow> rng \<Rightarrow> error + int list \<times> rng" where
  "ReplayBuffer_batch_idxes self batch_size sample_next_obs g =
     (if full self then
        (let valid_idxes = ReplayBuffer_valid_idxes self sample_next_obs
         in case randint 0 (int (length valid_idxes)) batch_size g of
              Inl e \<Rightarrow> Inl e
            | Inr (js, g') \<Rightarrow> Inr (map (\<lambda>j. valid_idxes ! nat j) js, g'))
      else
        (let max_pos_to_sample = (if sample_next_obs then pos self - 1 else pos self)
         in if max_pos_to_sample = 0 then Inl InsufficientDataError
            else randint 0 max_pos_to_sample batch_size g))"

text \<open>
  One sampled record: the record at the drawn slot and environment, and the companion
  \<^verbatim>\<open>next_observations\<close> when it was asked for.
\<close>

record ('a, 'o) sampled =
  item :: 'a
  next_observations :: "'o option"

text \<open>
  \<^verbatim>\<open>ReplayBuffer._get_samples\<close>. Indexing the table with index tensors builds a new
  \<^verbatim>\<open>TensorDict\<close>, so the assignment of \<^verbatim>\<open>next_observations\<close> is to that new value.
  \<open>observations\<close> reads the field of that name from a record, \<open>None\<close> when the record
  has no such field.
\<close>

definition ReplayBuffer_get_samples ::
  "('a \<Rightarrow> 'o option) \<Rightarrow> 'a replay_buffer \<Rightarrow> int list \<Rightarrow> bool \<Rightarrow> rng
     \<Rightarrow> error + ('a, 'o) sampled list \<times> rng" where
  "ReplayBuffer_get_samples observations self batch_idxes sample_next_obs g =
     (case randint 0 (n_envs self) (int (length batch_idxes)) g of
        Inl e \<Rightarrow> Inl e
      | Inr (env_idxes, g') \<Rightarrow>
          (case buf self of
             None \<Rightarrow> Inl UninitializedStorageError
           | Some t \<Rightarrow>
               (case td_gather t batch_idxes env_idxes of
                  Inl e \<Rightarrow> Inl e
                | Inr cells \<Rightarrow>
                    if sample_next_obs then
                      (case td_gather t (map (\<lambda>i. (i + 1) mod buffer_size self) batch_idxes)
                              env_idxes of
                         Inl e \<Rightarrow> Inl e
                       | Inr nexts \<Rightarrow>
                           (case collect (map observations nexts) of
                              Inl e \<Rightarrow> Inl e
                            | Inr obs \<Rightarrow>
                                Inr (map (\<lambda>(c, ob). \<lparr>item = c, next_observations = Some ob\<rparr>)
                                       (zip cells obs), g')))
                    else Inr (map (\<lambda>c. \<lparr>item = c, next_observations = None\<rparr>) cells, g'))))"

text \<open>
  \<^verbatim>\<open>ReplayBuffer.sample\<close>. \<^verbatim>\<open>unsqueeze(-1)\<close> turns each sampled record into a row of one;
  \<^verbatim>\<open>clone\<close> copies the result, which is the same value. The second component is the
  object's state when the call ends.
\<close>

definition ReplayBuffer_sample ::
  "('a \<Rightarrow> 'o option) \<Rightarrow> 'a replay_buffer \<Rightarrow> int \<Rightarrow> bool \<Rightarrow> bool \<Rightarrow> rng
     \<Rightarrow> (error + ('a, 'o) sampled list list \<times> rng) \<times> 'a replay_buffer" where
  "ReplayBuffer_sample observations self batch_size sample_next_obs clone g =
     (if batch_size \<le> 0 then (Inl InvalidArgument, self)
      else if \<not> full self \<and> pos self = 0 then (Inl EmptyBufferError, self)
      else
        (case ReplayBuffer_batch_idxes self batch_size sample_next_obs g of
           Inl e \<Rightarrow> (Inl e, self)
         | Inr (batch_idxes, g1) \<Rightarrow>
             (case ReplayBuffer_get_samples observations self batch_idxes sample_next_obs g1 of
                Inl e \<Rightarrow> (Inl e, self)
              | Inr (smp, g2) \<Rightarrow>
                  (let sample = map (\<lambda>c. [c]) smp
                   in if clone then (Inr (sample, g2), self) else (Inr (sample, g2), self)))))"

subsection \<open>\<^verbatim>\<open>SequentialReplayBuffer\<close>\<close>

text \<open>
  The subclass shares the fields; its constructor never memory-maps the table.
\<close>

definition SequentialReplayBuffer_init :: "int \<Rightarrow> int \<Rightarrow> error + ('a::zero) replay_buffer" where
  "SequentialReplayBuffer_init capacity envs = ReplayBuffer_init capacity envs False"

text \<open>
  The start indices \<^verbatim>\<open>SequentialReplayBuffer.sample\<close> may draw when the buffer is full,
  the drawn \<^verbatim>\<open>start_idxes\<close>, and the slots of the windows that start there.
\<close>

definition SequentialReplayBuffer_valid_idxes :: "'a replay_buffer \<Rightarrow> int \<Rightarrow> int list" where
  "SequentialReplayBuffer_valid_idxes self sequence_length =
     (let first_range_end = pos self - sequence_length + 1;
          second_range_end =
            (if 0 \<le> first_range_end then buffer_size self
             else buffer_size self + first_range_end)
      in py_range 0 first_range_end @ py_range (pos self) second_range_end)"

definition SequentialReplayBuffer_start_idxes ::
  "'a replay_buffer \<Rightarrow> int \<Rightarrow> int \<Rightarrow> rng \<Rightarrow> error + int list \<times> rng" where
  "SequentialReplayBuffer_start_idxes self batch_dim sequence_length g =
     (if full self then
        (let valid_idxes = SequentialReplayBuffer_valid_idxes self sequence_length
         in if int (length valid_idxes) < batch_dim then Inl InsufficientDataError
            else
              (case randint 0 (int (length valid_idxes)) batch_dim g of
                 Inl e \<Rightarrow> Inl e
               | Inr (js, g') \<Rightarrow> Inr (map (\<lambda>j. valid_idxes ! nat j) js, g')))
      else randint 0 (pos self - sequence_length + 1) batch_dim g)"

definition SequentialReplayBuffer_idxes ::
  "'a replay_buffer \<Rightarrow> int list \<Rightarrow> int \<Rightarrow> error + int list list" where
  "SequentialReplayBuffer_idxes self start_idxes sequence_length =
     (case arange sequence_length of
        Inl e \<Rightarrow> Inl e
      | Inr chunk_length \<Rightarrow>
          Inr (map (\<lambda>s. map (\<lambda>k. (s + k) mod buffer_size self) chunk_length) start_idxes))"

text \<open>
  \<^verbatim>\<open>view(n, m)\<close> of a flat tensor of \<open>n * m\<close> elements: \<open>n\<close> rows of \<open>m\<close>. A view of the
  gathered sample with rows of no element raises.
\<close>

definition view2 :: "nat \<Rightarrow> nat \<Rightarrow> 'a list \<Rightarrow> 'a list list" where
  "view2 n m xs = map (\<lambda>w. take m (drop (w * m) xs)) [0..<n]"

text \<open>
  \<^verbatim>\<open>SequentialReplayBuffer._get_samples\<close>, for a tensor \<open>batch_idxes\<close> of shape
  \<open>(batch_dim, sequence_length)\<close> given as its rows. One environment is drawn per row
  (\<^verbatim>\<open>torch.randint(0, self.n_envs, size=(unflatten_shape[0],))\<close>) and repeated along the
  row; \<^verbatim>\<open>sample_next_obs\<close> is not used.
\<close>

definition SequentialReplayBuffer_window_envs ::
  "'a replay_buffer \<Rightarrow> nat \<Rightarrow> rng \<Rightarrow> error + int list \<times> rng" where
  "SequentialReplayBuffer_window_envs self n g = randint 0 (n_envs self) (int n) g"

definition SequentialReplayBuffer_env_idxes :: "int list \<Rightarrow> nat \<Rightarrow> int list" where
  "SequentialReplayBuffer_env_idxes envs m = concat (map (replicate m) envs)"

definition SequentialReplayBuffer_get_samples ::
  "'a replay_buffer \<Rightarrow> int list list \<Rightarrow> bool \<Rightarrow> rng \<Rightarrow> error + 'a list list \<times> rng" where
  "SequentialReplayBuffer_get_samples self batch_idxes sample_next_obs g =
     (let n = length batch_idxes;
          m = (case batch_idxes of [] \<Rightarrow> 0 | r # _ \<Rightarrow> length r)
      in case SequentialReplayBuffer_window_envs self n g of
           Inl e \<Rightarrow> Inl e
         | Inr (envs, g') \<Rightarrow>
             (let env_idxes = SequentialReplayBuffer_env_idxes envs m
              in case buf self of
                   None \<Rightarrow> Inl BackendError
                 | Some t \<Rightarrow>
                     (case td_gather t (concat batch_idxes) env_idxes of
                        Inl e \<Rightarrow> Inl e
                      | Inr sample \<Rightarrow>
                          if m = 0 then Inl BackendError else Inr (view2 n m sample, g'))))"

text \<open>
  \<^verbatim>\<open>reshape(n_samples, batch_size, sequence_length).permute(0, -1, -2)\<close> of the sampled
  windows: entry \<open>(i, k, j)\<close> of the result is step \<open>k\<close> of window \<open>i * batch_size + j\<close>.
  The product of the two counts is positive here, so a negative count means both are
  negative, which \<^verbatim>\<open>reshape\<close> refuses.
\<close>

definition reshape_permute :: "int \<Rightarrow> int \<Rightarrow> int \<Rightarrow> 'a list list \<Rightarrow> error + 'a list list list" where
  "reshape_permute n_samples batch_size sequence_length sample =
     (if n_samples < 0 then Inl BackendError
      else if batch_size < 0 then Inl BackendError
      else Inr (map (\<lambda>i. map (\<lambda>k. map (\<lambda>j. sample ! (i * nat batch_size + j) ! k)
                                   [0..<nat batch_size])
                          [0..<nat sequence_length])
                  [0..<nat n_samples]))"

text \<open>
  \<^verbatim>\<open>SequentialReplayBuffer.sample\<close>; \<^verbatim>\<open>self._buf.shape[0]\<close> is the leading batch size of
  the table.
\<close>

definition SequentialReplayBuffer_sample ::
  "'a replay_buffer \<Rightarrow> int \<Rightarrow> bool \<Rightarrow> bool \<Rightarrow> int \<Rightarrow> int \<Rightarrow> rng
     \<Rightarrow> (error + 'a list list list \<times> rng) \<times> 'a replay_buffer" where
  "SequentialReplayBuffer_sample self batch_size sample_next_obs clone sequence_length n_samples g =
     (let batch_dim = batch_size * n_samples
      in if batch_dim \<le> 0 then (Inl InvalidArgument, self)
         else if \<not> full self \<and> pos self = 0 then (Inl EmptyBufferError, self)
         else
           (case buf self of
              None \<Rightarrow> (Inl BackendError, self)
            | Some t \<Rightarrow>
                (case shape t of
                   [] \<Rightarrow> (Inl BackendError, self)
                 | shape0 # _ \<Rightarrow>
                     if shape0 < batch_dim then (Inl CapacityError, self)
                     else if \<not> full self \<and> pos self - sequence_length + 1 < 1
                       then (Inl CapacityError, self)
                     else if full self \<and> shape0 < sequence_length then (Inl CapacityError, self)
                     else
                       (case SequentialReplayBuffer_start_idxes self batch_dim sequence_length g of
                          Inl e \<Rightarrow> (Inl e, self)
                        | Inr (start_idxes, g1) \<Rightarrow>
                            (case SequentialReplayBuffer_idxes self start_idxes sequence_length of
                               Inl e \<Rightarrow> (Inl e, self)
                             | Inr idxes \<Rightarrow>
                                 (case SequentialReplayBuffer_get_samples self idxes False g1 of
                                    Inl e \<Rightarrow> (Inl e, self)
                                  | Inr (smp, g2) \<Rightarrow>
                                      (case reshape_permute n_samples batch_size sequence_length smp of
                                         Inl e \<Rightarrow> (Inl e, self)
                                       | Inr sample \<Rightarrow>
                                           if clone then (Inr (sample, g2), self)
                                           else (Inr (sample, g2), self))))))))"

subsection \<open>Well-formed buffers\<close>

text \<open>
  The states a buffer can be in: the sizes are positive, the cursor is a slot, and the
  table, once allocated, has one row per slot and one record per environment in each row.
  Only a memory-mapped buffer that has never been written has no table.
\<close>

definition buffer_wf :: "'a replay_buffer \<Rightarrow> bool" where
  "buffer_wf b =
     (0 < buffer_size b \<and> 0 < n_envs b \<and> 0 \<le> pos b \<and> pos b < buffer_size b \<and>
      (case buf b of
         None \<Rightarrow> memmap b \<and> pos b = 0 \<and> \<not> full b
       | Some t \<Rightarrow> td_of_shape t (buffer_size b) (n_envs b)))"

text \<open>
  The stored records carry the field "observations" (every record of the table does).
\<close>

definition records_have_observations :: "('a \<Rightarrow> 'o option) \<Rightarrow> 'a replay_buffer \<Rightarrow> bool" where
  "records_have_observations observations b =
     (case buf b of
        None \<Rightarrow> True
      | Some t \<Rightarrow> list_all (list_all (\<lambda>c. observations c \<noteq> None)) (rows t))"

subsection \<open>Example states\<close>

text \<open>
  Batches of records numbered \<open>m, \<dots>, n - 1\<close> for one environment, a batch of three
  steps of two environments whose records end in the number of their environment, and
  the buffers reached from a fresh one by the calls named.
\<close>

definition numbered :: "nat \<Rightarrow> nat \<Rightarrow> nat tensordict" where
  "numbered m n = \<lparr>shape = [int (n - m), 1], rows = map (\<lambda>k. [k]) [m..<n]\<rparr>"

definition tagged :: "nat tensordict" where
  "tagged = \<lparr>shape = [3, 2], rows = [[10, 11], [20, 21], [30, 31]]\<rparr>"

definition fresh_buffer :: "int \<Rightarrow> int \<Rightarrow> nat replay_buffer" where
  "fresh_buffer capacity envs =
     (case ReplayBuffer_init capacity envs False of
        Inr b \<Rightarrow> b
      | Inl e \<Rightarrow> \<lparr>buffer_size = 0, n_envs = 0, memmap = False, buf = None, pos = 0, full = False\<rparr>)"

definition after_add :: "nat replay_buffer \<Rightarrow> nat tensordict \<Rightarrow> nat replay_buffer" where
  "after_add b d = snd (ReplayBuffer_add b d)"

section \<open>Properties\<close>

subsection \<open>Ranges, draws and indexed writes\<close>

lemma set_py_range: "set (py_range a b) = {a..<b}"
  by (auto simp: py_range_def)

lemma length_py_range: "length (py_range a b) = nat (b - a)"
  by (simp add: py_range_def)

lemma nth_py_range: "i < nat (b - a) \<Longrightarrow> py_range a b ! i = a + int i"
  by (simp add: py_range_def)

lemma distinct_py_range: "distinct (py_range a b)"
  by (simp add: py_range_def)

lemma randint_Inr:
  assumes "randint low high n g = Inr (xs, g')"
  shows "low < high" and "0 \<le> n" and "length xs = nat n"
    and "xs = map (\<lambda>i. low + int (g i) mod (high - low)) [0..<nat n]"
    and "g' = (\<lambda>i. g (i + nat n))"
  using assms by (auto simp: randint_def split: if_splits)

lemma randint_range:
  assumes "randint low high n g = Inr (xs, g')" and "x \<in> set xs"
  shows "low \<le> x \<and> x < high"
proof -
  have lt: "0 < high - low" using randint_Inr(1)[OF assms(1)] by simp
  obtain i where "x = low + int (g i) mod (high - low)"
    using assms randint_Inr(4)[OF assms(1)] by auto
  moreover have "0 \<le> int (g i) mod (high - low)" "int (g i) mod (high - low) < high - low"
    using lt by simp_all
  ultimately show ?thesis by linarith
qed

lemma randint_ok:
  "low < high \<Longrightarrow> 0 \<le> n \<Longrightarrow> \<exists>xs g'. randint low high n g = Inr (xs, g')"
  by (simp add: randint_def)

lemma randint_Inl: "randint low high n g = Inl e \<Longrightarrow> e = BackendError \<and> (high \<le> low \<or> n < 0)"
  by (auto simp: randint_def split: if_splits)

lemma collect_map_Some: "collect (map Some ys) = Inr ys"
  by (induction ys) auto

lemma collect_Inl: "collect xs = Inl e \<Longrightarrow> e = BackendError"
  by (induction xs rule: collect.induct) (auto split: sum.splits)

lemma collect_all_Some:
  "list_all (\<lambda>x. x \<noteq> None) xs \<Longrightarrow> collect xs = Inr (map the xs)"
  by (induction xs rule: collect.induct) auto

lemma mod_once:
  fixes x c :: int
  assumes "0 \<le> x" and "x < 2 * c"
  shows "x mod c = (if x < c then x else x - c)"
proof (cases "x < c")
  case True
  then show ?thesis using assms by simp
next
  case False
  then have r: "0 \<le> x - c" "x - c < c" using assms by simp_all
  have "x mod c = (x - c) mod c" by simp
  also have "\<dots> = x - c" using r by (rule mod_pos_pos_trivial)
  finally show ?thesis using False by simp
qed

lemma store_rows_length:
  "store_rows ps rs = Inr rs' \<Longrightarrow> length rs' = length rs"
  by (induction ps rs rule: store_rows.induct) auto

lemma store_rows_all:
  assumes "store_rows ps rs = Inr rs'" and "list_all P rs" and "list_all (\<lambda>p. P (snd p)) ps"
  shows "list_all P rs'"
  using assms
proof (induction ps rs rule: store_rows.induct)
  case (3 i r ps rs)
  have "list_all P (rs[i := r])"
    using "3.prems"(2,3) by (auto simp: list_all_iff dest: set_update_subset_insert[THEN subsetD])
  then show ?case using 3 by simp
qed simp_all

subsection \<open>Insertion\<close>

text \<open>
  \<^bold>\<open>C4.\<close> A fresh buffer with \<open>buffer_size = 5\<close> and \<open>n_envs = 1\<close>, after one \<^verbatim>\<open>add\<close> of the
  seven records numbered 0 to 6, holds 5, 6, 2, 3, 4 in the slots 0 to 4, with the cursor
  at 2 and the full flag set.
\<close>

theorem add_wraparound_5_of_7:
  "(case ReplayBuffer_init 5 1 False of
      Inl e \<Rightarrow> False
    | Inr b \<Rightarrow>
        (case ReplayBuffer_add b \<lparr>shape = [7, 1], rows = [[0], [1], [2], [3], [4], [5], [6::nat]]\<rparr> of
           (r, b') \<Rightarrow>
             r = Inr () \<and> map_option rows (buf b') = Some [[5], [6], [2], [3], [4]]
             \<and> pos b' = 2 \<and> full b'))"
  by code_simp

lemma add_state_invariants:
  assumes wf: "buffer_wf b" and add: "ReplayBuffer_add b d = (r, b')"
  shows "buffer_size b' = buffer_size b" and "n_envs b' = n_envs b" and "memmap b' = memmap b"
    and "0 \<le> pos b'" and "pos b' < buffer_size b'" and "full b \<Longrightarrow> full b'"
  using assms
  by (auto simp: ReplayBuffer_add_def Let_def buffer_wf_def
      split: option.splits sum.splits if_splits)

lemma add_success_cursor:
  assumes add: "ReplayBuffer_add b d = (Inr u, b')"
  shows "length (shape d) = 2"
    and "pos b' = (pos b + hd (shape d)) mod buffer_size b"
    and "full b' = (full b \<or> buffer_size b \<le> pos b + hd (shape d))"
  using assms
  by (auto simp: ReplayBuffer_add_def Let_def
      split: option.splits sum.splits if_splits)

lemma add_failure_cursor:
  assumes add: "ReplayBuffer_add b d = (Inl e, b')"
  shows "pos b' = pos b" and "full b' = full b"
  using assms
  by (auto simp: ReplayBuffer_add_def Let_def
      split: option.splits sum.splits if_splits)

lemma sample_state: "snd (ReplayBuffer_sample observations b n nxt cl g) = b"
  by (simp add: ReplayBuffer_sample_def Let_def split: sum.splits prod.splits)

lemma sequential_sample_state: "snd (SequentialReplayBuffer_sample b n nxt cl sl ns g) = b"
  by (simp add: SequentialReplayBuffer_sample_def Let_def
      split: sum.splits prod.splits option.splits list.splits)

lemma td_zeros_shape: "0 \<le> n \<Longrightarrow> 0 \<le> e \<Longrightarrow> td_of_shape (td_zeros n e) n e"
  by (simp add: td_zeros_def td_of_shape_def list_all_iff)

lemma init_wf: "ReplayBuffer_init n e mm = Inr b \<Longrightarrow> buffer_wf b"
  by (auto simp: ReplayBuffer_init_def buffer_wf_def td_zeros_shape split: if_splits)

lemma expand_envs_length: "0 \<le> e \<Longrightarrow> int (length (expand_envs e r)) = e"
  by (simp add: expand_envs_def)

lemma td_expand_same: "td_of_shape v k e \<Longrightarrow> td_expand v k e = Some (rows v)"
proof -
  assume a: "td_of_shape v k e"
  then have "map (expand_envs e) (rows v) = rows v"
    by (intro map_idI) (auto simp: td_of_shape_def expand_envs_def list_all_iff)
  then show ?thesis
    using a by (simp add: td_expand_def Let_def expand_rows_def td_of_shape_def)
qed

lemma td_expand_shape:
  assumes "td_expand v k e = Some rs" and "0 \<le> k" and "0 \<le> e"
  shows "int (length rs) = k" and "list_all (\<lambda>r. int (length r) = e) rs"
proof -
  let ?xs = "map (expand_envs e) (rows v)"
  have rs: "rs = expand_rows k ?xs"
    and k: "int (length (rows v)) = k \<or> int (length (rows v)) = 1"
    using assms(1) by (auto simp: td_expand_def Let_def split: if_splits)
  have all: "list_all (\<lambda>r. int (length r) = e) ?xs"
    by (auto simp: list_all_iff expand_envs_length[OF assms(3)])
  show "int (length rs) = k"
    using assms(2) by (simp add: rs expand_rows_def)
  show "list_all (\<lambda>r. int (length r) = e) rs"
  proof (cases "int (length ?xs) = k")
    case True
    then show ?thesis using all by (simp add: rs expand_rows_def)
  next
    case False
    then have "length ?xs = 1" using k by simp
    then have "?xs ! 0 \<in> set ?xs" by (metis nth_mem zero_less_one)
    then have "int (length (?xs ! 0)) = e" using all unfolding list_all_iff by blast
    then show ?thesis using False by (simp add: rs expand_rows_def list_all_iff)
  qed
qed

lemma td_set_rows_shape:
  assumes "td_set_rows t idx v = Inr t'" and "td_of_shape t n e" and "0 \<le> e"
  shows "td_of_shape t' n e"
proof -
  have sh: "tl (shape t) = [e]" using assms(2) by (simp add: td_of_shape_def)
  obtain idxes rs rs' where idx: "idx = Int64Tensor idxes"
    and ex: "td_expand v (int (length idxes)) e = Some rs"
    and s: "store_rows (zip (map (py_position (int (length (rows t)))) idxes) rs) (rows t) = Inr rs'"
    and t': "t' = t\<lparr>rows := rs'\<rparr>"
    using assms(1) unfolding td_set_rows_def sh
    by (auto split: index_tensor.splits option.splits sum.splits)
  have a: "list_all (\<lambda>r. int (length r) = e) (rows t)"
    using assms(2) by (simp add: td_of_shape_def)
  have "list_all (\<lambda>r. int (length r) = e) rs"
    using td_expand_shape(2)[OF ex _ assms(3)] by simp
  then have b: "list_all (\<lambda>p. int (length (snd p)) = e)
      (zip (map (py_position (int (length (rows t)))) idxes) rs)"
    by (auto simp: list_all_iff dest: set_zip_rightD)
  have "list_all (\<lambda>r. int (length r) = e) rs'"
    using store_rows_all[OF s a b] .
  then show ?thesis
    using assms(2) store_rows_length[OF s] t' by (simp add: td_of_shape_def)
qed

lemma td_slice_from_shape:
  assumes "td_of_shape d l e"
  shows "td_of_shape (td_slice_from k d) (int (length (rows (td_slice_from k d)))) e"
  using assms
  by (auto simp: td_of_shape_def td_slice_from_def slice_from_def Let_def list_all_iff
      dest: in_set_dropD)

text \<open>
  \<^verbatim>\<open>add\<close> as one indexed assignment, for a batch with two batch dimensions: the table
  written is the buffer's, or a fresh one when a memory-mapped buffer has none yet.
\<close>

lemma add_as_set_rows:
  assumes wf: "buffer_wf b" and rank: "length (shape d) = 2"
  shows "\<exists>t b1. td_of_shape t (buffer_size b) (n_envs b)
    \<and> b1 = (case buf b of
               None \<Rightarrow> b\<lparr>buf := Some (td_zeros (buffer_size b) (n_envs b))\<rparr>
             | Some t \<Rightarrow> b)
    \<and> buf b1 = Some t
    \<and> ReplayBuffer_add b d =
        (case td_set_rows t
                (if (pos b + hd (shape d)) mod buffer_size b < pos b
                    \<or> (buffer_size b \<le> hd (shape d) \<and> \<not> full b)
                 then torch_tensor (py_range (pos b) (buffer_size b)
                        @ py_range 0 ((pos b + hd (shape d)) mod buffer_size b))
                 else torch_tensor (py_range (pos b) ((pos b + hd (shape d)) mod buffer_size b)))
                (if buffer_size b < hd (shape d)
                 then td_slice_from (- buffer_size b - (pos b + hd (shape d)) mod buffer_size b) d
                 else d) of
           Inl e \<Rightarrow> (Inl e, b1)
         | Inr t' \<Rightarrow>
             (Inr (), b1\<lparr>buf := Some t',
                full := (if buffer_size b \<le> pos b + hd (shape d) then True else full b),
                pos := (pos b + hd (shape d)) mod buffer_size b\<rparr>))"
proof -
  define b1 where "b1 =
    (if memmap b \<and> buf b = None
     then b\<lparr>buf := Some (td_zeros (buffer_size b) (n_envs b))\<rparr> else b)"
  have c: "0 < buffer_size b" "0 < n_envs b" using wf by (simp_all add: buffer_wf_def)
  have z: "td_of_shape (td_zeros (buffer_size b) (n_envs b)) (buffer_size b) (n_envs b)"
    using c by (intro td_zeros_shape) simp_all
  obtain t where t: "buf b1 = Some t" "td_of_shape t (buffer_size b) (n_envs b)"
    using wf z by (cases "buf b") (auto simp: b1_def buffer_wf_def)
  have b1: "b1 = (case buf b of
               None \<Rightarrow> b\<lparr>buf := Some (td_zeros (buffer_size b) (n_envs b))\<rparr>
             | Some t \<Rightarrow> b)"
    using wf by (cases "buf b") (auto simp: b1_def buffer_wf_def)
  have "ReplayBuffer_add b d =
      (case buf b1 of
         None \<Rightarrow> (Inl BackendError, b1)
       | Some t \<Rightarrow>
        (case td_set_rows t
                (if (pos b + hd (shape d)) mod buffer_size b < pos b
                    \<or> (buffer_size b \<le> hd (shape d) \<and> \<not> full b)
                 then torch_tensor (py_range (pos b) (buffer_size b)
                        @ py_range 0 ((pos b + hd (shape d)) mod buffer_size b))
                 else torch_tensor (py_range (pos b) ((pos b + hd (shape d)) mod buffer_size b)))
                (if buffer_size b < hd (shape d)
                 then td_slice_from (- buffer_size b - (pos b + hd (shape d)) mod buffer_size b) d
                 else d) of
           Inl e \<Rightarrow> (Inl e, b1)
         | Inr t' \<Rightarrow>
             (Inr (), b1\<lparr>buf := Some t',
                full := (if buffer_size b \<le> pos b + hd (shape d) then True else full b),
                pos := (pos b + hd (shape d)) mod buffer_size b\<rparr>)))"
    unfolding ReplayBuffer_add_def Let_def b1_def using rank by simp
  then show ?thesis using t b1 by (simp only: option.case) blast
qed

lemma add_wf:
  assumes wf: "buffer_wf b"
  shows "buffer_wf (snd (ReplayBuffer_add b d))"
proof (cases "length (shape d) = 2")
  case False
  then show ?thesis using wf by (simp add: ReplayBuffer_add_def)
next
  case True
  define np where "np = (pos b + hd (shape d)) mod buffer_size b"
  have c: "0 < buffer_size b" "0 < n_envs b" using wf by (simp_all add: buffer_wf_def)
  have np: "0 \<le> np" "np < buffer_size b" using c by (simp_all add: np_def)
  obtain t b1 idx v where t: "td_of_shape t (buffer_size b) (n_envs b)"
    and b1: "b1 = (case buf b of
               None \<Rightarrow> b\<lparr>buf := Some (td_zeros (buffer_size b) (n_envs b))\<rparr>
             | Some t \<Rightarrow> b)"
    and tb: "buf b1 = Some t"
    and e: "ReplayBuffer_add b d =
        (case td_set_rows t idx v of
           Inl e \<Rightarrow> (Inl e, b1)
         | Inr t' \<Rightarrow>
             (Inr (), b1\<lparr>buf := Some t',
                full := (if buffer_size b \<le> pos b + hd (shape d) then True else full b),
                pos := np\<rparr>))"
    using add_as_set_rows[OF wf True] unfolding np_def by blast
  have f1: "buffer_size b1 = buffer_size b" "n_envs b1 = n_envs b" "pos b1 = pos b"
    "full b1 = full b" "memmap b1 = memmap b"
    by (simp_all add: b1 split: option.splits)
  have wf1: "buffer_wf b1"
    using wf t tb f1 by (simp add: buffer_wf_def)
  show ?thesis
  proof (cases "td_set_rows t idx v")
    case (Inl x)
    then show ?thesis using e wf1 by simp
  next
    case (Inr t')
    have "td_of_shape t' (buffer_size b) (n_envs b)"
      using td_set_rows_shape[OF Inr t] c by simp
    then show ?thesis
      using e Inr wf1 np f1 by (simp add: buffer_wf_def)
  qed
qed

text \<open>
  A batch of no row, in any state: \<open>next_pos = pos\<close>, so the index tensor is built from
  the empty range \<open>range(pos, pos)\<close> and the indexed assignment raises. The cursor and the
  full flag are left as they were, and nothing is stored.
\<close>

lemma add_empty:
  assumes wf: "buffer_wf b" and rank: "length (shape d) = 2" and len: "hd (shape d) = 0"
  shows "ReplayBuffer_add b d =
           (Inl BackendError,
            (case buf b of
               None \<Rightarrow> b\<lparr>buf := Some (td_zeros (buffer_size b) (n_envs b))\<rparr>
             | Some t \<Rightarrow> b))"
proof -
  have p: "pos b mod buffer_size b = pos b" and c: "\<not> buffer_size b \<le> 0"
    using wf by (simp_all add: buffer_wf_def)
  have f: "td_set_rows t (torch_tensor (py_range (pos b) (pos b))) d = Inl BackendError" for t
    by (simp add: td_set_rows_def torch_tensor_def py_range_def)
  show ?thesis
    unfolding ReplayBuffer_add_def Let_def len
    using wf rank by (auto simp: p c f buffer_wf_def split: option.splits)
qed

lemma fresh_buffer_5: "fresh_buffer 5 1 =
  \<lparr>buffer_size = 5, n_envs = 1, memmap = False,
    buf = Some \<lparr>shape = [5, 1], rows = [[0], [0], [0], [0], [0]]\<rparr>, pos = 0, full = False\<rparr>"
  by code_simp

lemma fresh_buffer_5_wf: "buffer_wf (fresh_buffer 5 1)"
  by code_simp

lemma full_buffer_5: "after_add (fresh_buffer 5 1) (numbered 0 7) =
  \<lparr>buffer_size = 5, n_envs = 1, memmap = False,
    buf = Some \<lparr>shape = [5, 1], rows = [[5], [6], [2], [3], [4]]\<rparr>, pos = 2, full = True\<rparr>"
  by code_simp

lemma full_buffer_5_wf: "buffer_wf (after_add (fresh_buffer 5 1) (numbered 0 7))"
  by code_simp

text \<open>
  What \<^verbatim>\<open>add\<close> does to the cursor and the full flag. A call that returns leaves the
  cursor at \<open>(pos + L) mod buffer_size\<close> and the full flag set exactly when it was set
  before or \<open>pos + L \<ge> buffer_size\<close>; a call that raises leaves both as they were. So
  after any call the cursor is a slot and a full flag that was set stays set; the two
  samplers do not touch the state at all.
\<close>

lemma add_cursor_and_full_flag:
  assumes "buffer_wf b" and "ReplayBuffer_add b d = (r, b')"
  shows "0 \<le> pos b' \<and> pos b' < buffer_size b \<and> buffer_size b' = buffer_size b
    \<and> (full b \<longrightarrow> full b')
    \<and> (r = Inr () \<longrightarrow>
          pos b' = (pos b + hd (shape d)) mod buffer_size b
          \<and> full b' = (full b \<or> buffer_size b \<le> pos b + hd (shape d)))
    \<and> (r \<noteq> Inr () \<longrightarrow> pos b' = pos b \<and> full b' = full b)
    \<and> full (snd (ReplayBuffer_sample observations b' n nxt cl g)) = full b'
    \<and> full (snd (SequentialReplayBuffer_sample b' n nxt cl sl ns g)) = full b'"
proof -
  have "r \<noteq> Inr () \<Longrightarrow> pos b' = pos b \<and> full b' = full b"
    using add_failure_cursor[of b d _ b'] assms(2) by (cases r) auto
  moreover have "r = Inr () \<Longrightarrow> pos b' = (pos b + hd (shape d)) mod buffer_size b
      \<and> full b' = (full b \<or> buffer_size b \<le> pos b + hd (shape d))"
    using add_success_cursor[of b d "()" b'] assms(2) by simp
  ultimately show ?thesis
    using add_state_invariants[OF assms] by (simp add: sample_state sequential_sample_state)
qed

lemma add_cursor_and_full_flag_example:
  "buffer_wf (fresh_buffer 5 1)
   \<and> ReplayBuffer_add (fresh_buffer 5 1) (numbered 0 7)
       = (Inr (), after_add (fresh_buffer 5 1) (numbered 0 7))
   \<and> pos (after_add (fresh_buffer 5 1) (numbered 0 7)) = (0 + 7) mod 5
   \<and> full (after_add (fresh_buffer 5 1) (numbered 0 7))"
proof -
  have a: "ReplayBuffer_add (fresh_buffer 5 1) (numbered 0 7)
       = (Inr (), after_add (fresh_buffer 5 1) (numbered 0 7))"
    by code_simp
  have s: "hd (shape (numbered 0 7)) = 7" "pos (fresh_buffer 5 1) = 0"
    "buffer_size (fresh_buffer 5 1) = 5"
    by (simp_all add: numbered_def fresh_buffer_5)
  show ?thesis
    using add_cursor_and_full_flag[OF fresh_buffer_5_wf a,
        where observations = "Some :: nat \<Rightarrow> nat option" and n = 1 and nxt = False
          and cl = False and g = "\<lambda>i. 0" and sl = 1 and ns = 1]
      a fresh_buffer_5_wf s
    by simp
qed

text \<open>
  \<^bold>\<open>C5.\<close> Every \<^verbatim>\<open>add\<close> of a batch of leading length \<open>L\<close> should leave the cursor at
  \<open>(pos + L) mod buffer_size\<close> and set the full flag when \<open>pos + L \<ge> buffer_size\<close>. An
  \<^verbatim>\<open>add\<close> that returns does so (\<open>add_cursor_and_full_flag\<close>); one that raises in the
  indexed assignment does not. With five slots and one record stored (\<open>pos = 1\<close>, not full), a batch of
  \<open>L = 9\<close> records should leave \<open>pos = (1 + 9) mod 5 = 0\<close> and the full flag set, since
  \<open>1 + 9 \<ge> 5\<close>; the call raises before lines 120 to 122 and leaves \<open>pos = 1\<close> and the flag
  unset.
\<close>

theorem add_raise_leaves_cursor:
  "pos (after_add (fresh_buffer 5 1) (numbered 0 1)) = 1
   \<and> \<not> full (after_add (fresh_buffer 5 1) (numbered 0 1))
   \<and> hd (shape (numbered 1 10)) = 9
   \<and> (1 + 9) mod buffer_size (after_add (fresh_buffer 5 1) (numbered 0 1)) = 0
   \<and> buffer_size (after_add (fresh_buffer 5 1) (numbered 0 1)) \<le> 1 + 9
   \<and> fst (ReplayBuffer_add (after_add (fresh_buffer 5 1) (numbered 0 1)) (numbered 1 10))
       = Inl BackendError
   \<and> pos (snd (ReplayBuffer_add (after_add (fresh_buffer 5 1) (numbered 0 1)) (numbered 1 10)))
       = 1
   \<and> \<not> full (snd (ReplayBuffer_add (after_add (fresh_buffer 5 1) (numbered 0 1))
                    (numbered 1 10)))"
  by code_simp

text \<open>
  \<^bold>\<open>C10.\<close> An \<^verbatim>\<open>add\<close> of a batch of shape \<open>[0, n_envs]\<close> should raise nothing, store
  nothing and leave the cursor and the full flag as they were. The code stores nothing and
  leaves both as they were (\<open>add_empty\<close>), and it raises: on a fresh buffer of five slots
  and on the full buffer of C4 the index tensor is built from an empty range, a tensor of
  floats, and the indexed assignment on line 119 refuses it.
\<close>

theorem add_empty_batch_raises:
  "ReplayBuffer_add (fresh_buffer 5 1) (numbered 0 0) = (Inl BackendError, fresh_buffer 5 1)
   \<and> ReplayBuffer_add (after_add (fresh_buffer 5 1) (numbered 0 7)) (numbered 0 0)
       = (Inl BackendError, after_add (fresh_buffer 5 1) (numbered 0 7))
   \<and> shape (numbered 0 0) = [0, n_envs (fresh_buffer 5 1)]"
  by code_simp

subsection \<open>Insertion of more records than slots\<close>

lemma store_rows_ok:
  "list_all (\<lambda>p. fst p \<noteq> None) ps \<Longrightarrow> \<exists>rs'. store_rows ps rs = Inr rs'"
  by (induction ps rs rule: store_rows.induct) auto

lemma td_set_rows_ok_iff:
  assumes "td_of_shape t n e" and "\<forall>i \<in> set idxes. 0 \<le> i \<and> i < n"
    and "td_of_shape v k e"
  shows "(\<exists>t'. td_set_rows t (torch_tensor idxes) v = Inr t')
    \<longleftrightarrow> idxes \<noteq> [] \<and> (k = int (length idxes) \<or> k = 1)"
proof (cases "idxes = []")
  case True
  then show ?thesis by (simp add: td_set_rows_def torch_tensor_def)
next
  case False
  have l: "int (length (rows t)) = n" and s: "tl (shape t) = [e]"
    using assms(1) by (simp_all add: td_of_shape_def)
  have lv: "int (length (rows v)) = k" using assms(3) by (simp add: td_of_shape_def)
  have ex: "td_expand v (int (length idxes)) e \<noteq> None \<longleftrightarrow> k = int (length idxes) \<or> k = 1"
    using assms(3) lv by (auto simp: td_expand_def Let_def)
  have st: "\<exists>rs'. store_rows (zip (map (py_position (int (length (rows t)))) idxes) rs) (rows t) = Inr rs'"
    for rs :: "'a list list"
  proof -
    have "list_all (\<lambda>p. fst p \<noteq> None) (zip (map (py_position (int (length (rows t)))) idxes) rs)"
      using assms(2) l by (auto simp: list_all_iff py_position_def dest!: set_zip_leftD)
    then show ?thesis by (rule store_rows_ok)
  qed
  have "(\<exists>t'. td_set_rows t (Int64Tensor idxes) v = Inr t')
      \<longleftrightarrow> td_expand v (int (length idxes)) e \<noteq> None"
  proof (cases "td_expand v (int (length idxes)) e")
    case None
    then show ?thesis unfolding td_set_rows_def s by simp
  next
    case (Some rs)
    obtain rs' where
      "store_rows (zip (map (py_position (int (length (rows t)))) idxes) rs) (rows t) = Inr rs'"
      using st[of rs] by blast
    then show ?thesis using Some unfolding td_set_rows_def s by simp
  qed
  then show ?thesis using False ex by (simp add: torch_tensor_def)
qed

lemma mod_twice:
  fixes x c :: int
  assumes "0 < c" and "2 * c \<le> x"
  shows "x mod c \<le> x - 2 * c"
proof -
  have "x mod c = (x - 2 * c) mod c"
    by (metis mod_diff_right_eq mod_mult_self2_is_0 diff_zero)
  also have "\<dots> \<le> x - 2 * c" using assms by (intro zmod_le_nonneg_dividend) simp
  finally show ?thesis .
qed

lemma add_oversized_outcome:
  assumes wf: "buffer_wf b" and d: "td_of_shape d l (n_envs b)" and big: "buffer_size b < l"
  shows "fst (ReplayBuffer_add b d) = Inr ()
    \<longleftrightarrow> \<not> full b \<and> (pos b = 0 \<or> pos b + l < 2 * buffer_size b)"
proof -
  define c where "c = buffer_size b"
  define p where "p = pos b"
  define np where "np = (p + l) mod c"
  define idxes where "idxes =
    (if np < p \<or> (c \<le> l \<and> \<not> full b) then py_range p c @ py_range 0 np else py_range p np)"
  define v where "v = td_slice_from (- c - np) d"
  have c: "0 < c" and p: "0 \<le> p" "p < c"
    using wf by (simp_all add: buffer_wf_def c_def p_def)
  have np: "0 \<le> np" "np < c" using c by (simp_all add: np_def)
  have sh: "shape d = [l, n_envs b]" and ld: "int (length (rows d)) = l"
    using d by (simp_all add: td_of_shape_def)
  have rank: "length (shape d) = 2" and hd: "hd (shape d) = l" using sh by simp_all
  obtain t b1 where t: "td_of_shape t c (n_envs b)"
    and e: "ReplayBuffer_add b d =
        (case td_set_rows t (torch_tensor idxes) v of
           Inl e \<Rightarrow> (Inl e, b1)
         | Inr t' \<Rightarrow>
             (Inr (), b1\<lparr>buf := Some t',
                full := (if c \<le> p + l then True else full b), pos := np\<rparr>))"
    using add_as_set_rows[OF wf rank] big
    unfolding hd idxes_def v_def np_def c_def p_def by (auto simp: if_distrib[of torch_tensor])
  have ir: "\<forall>i \<in> set idxes. 0 \<le> i \<and> i < c"
    using p np by (auto simp: idxes_def set_py_range)
  have li: "int (length idxes) = (if np < p \<or> \<not> full b then c - p + np else np - p)"
    using p np big c by (auto simp: idxes_def length_py_range c_def)
  have lv: "int (length (rows v)) = (if c + np \<le> l then c + np else l)"
    using ld c np by (auto simp: v_def td_slice_from_def slice_from_def Let_def)
  have sv: "td_of_shape v (int (length (rows v))) (n_envs b)"
    unfolding v_def using d by (rule td_slice_from_shape)
  have "fst (ReplayBuffer_add b d) = Inr () \<longleftrightarrow> (\<exists>t'. td_set_rows t (torch_tensor idxes) v = Inr t')"
    unfolding e by (cases "td_set_rows t (torch_tensor idxes) v") auto
  then have ok: "fst (ReplayBuffer_add b d) = Inr ()
      \<longleftrightarrow> 0 < int (length idxes)
          \<and> (int (length (rows v)) = int (length idxes) \<or> int (length (rows v)) = 1)"
    using td_set_rows_ok_iff[OF t ir sv] by auto
  have small: "np = p + l - c" if "p + l < 2 * c"
    using mod_once[of "p + l" c] that p big c by (simp add: np_def c_def)
  have large: "np \<le> p + l - 2 * c" if "2 * c \<le> p + l"
    using mod_twice[OF c that] by (simp add: np_def)
  have goal: "0 < int (length idxes)
          \<and> (int (length (rows v)) = int (length idxes) \<or> int (length (rows v)) = 1)
      \<longleftrightarrow> \<not> full b \<and> (p = 0 \<or> p + l < 2 * c)"
  proof (cases "p + l < 2 * c")
    case True
    have n: "np = p + l - c" using small[OF True] .
    show ?thesis
    proof (cases "p = 0")
      case True
      then show ?thesis using n big c unfolding li lv by (auto simp: c_def)
    next
      case False
      then show ?thesis using n big c p True unfolding li lv by (auto simp: c_def)
    qed
  next
    case False
    then have n: "np \<le> p + l - 2 * c" using large by simp
    show ?thesis
    proof (cases "p = 0")
      case True
      then show ?thesis using n big c np False unfolding li lv by (auto simp: c_def)
    next
      case p0: False
      then show ?thesis using n big c np p False unfolding li lv by (auto simp: c_def)
    qed
  qed
  show ?thesis using ok goal by (simp add: c_def p_def)
qed

text \<open>
  \<^bold>\<open>C2.\<close> The code keeps the trailing \<open>buffer_size + next_pos\<close> rows of an over-long
  batch and writes them to the indices \<open>[pos, buffer_size) @ [0, next_pos)\<close>. The two
  lengths agree from an empty buffer: ten records into five fresh slots leave the last
  five. They differ in other states: with one record stored (\<open>pos = 1\<close>, not full), nine
  more records give four destination indices for five source rows, and on the full
  buffer of C4 ten more records give no destination index for seven source rows; the
  indexed assignment raises and the buffer is left as it was. By
  \<open>add_oversized_outcome\<close> a batch longer than the buffer is stored exactly when the
  buffer is not full and \<open>pos = 0\<close> or \<open>pos + L < 2 * buffer_size\<close>.
\<close>

theorem add_oversized_batch:
  "ReplayBuffer_add (fresh_buffer 5 1) (numbered 0 10) =
     (Inr (), \<lparr>buffer_size = 5, n_envs = 1, memmap = False,
               buf = Some \<lparr>shape = [5, 1], rows = [[5], [6], [7], [8], [9]]\<rparr>,
               pos = 0, full = True\<rparr>)
   \<and> pos (after_add (fresh_buffer 5 1) (numbered 0 1)) = 1
   \<and> \<not> full (after_add (fresh_buffer 5 1) (numbered 0 1))
   \<and> ReplayBuffer_add (after_add (fresh_buffer 5 1) (numbered 0 1)) (numbered 1 10) =
       (Inl BackendError, after_add (fresh_buffer 5 1) (numbered 0 1))
   \<and> ReplayBuffer_add (after_add (fresh_buffer 5 1) (numbered 0 7)) (numbered 7 17) =
       (Inl BackendError, after_add (fresh_buffer 5 1) (numbered 0 7))"
  by code_simp

subsection \<open>Uniform sampling\<close>

lemma valid_idxes_set:
  assumes "buffer_wf b"
  shows "set (ReplayBuffer_valid_idxes b nxt) =
           {0..<buffer_size b} - (if nxt then {(pos b - 1) mod buffer_size b} else {})"
proof (cases "pos b = 0")
  case True
  have "(- 1) mod buffer_size b = buffer_size b - 1"
    using assms mod_once[of "buffer_size b - 1" "buffer_size b"]
    by (simp add: buffer_wf_def zmod_minus1)
  then show ?thesis
    using assms True
    by (auto simp: ReplayBuffer_valid_idxes_def Let_def set_py_range buffer_wf_def)
next
  case False
  then have "(pos b - 1) mod buffer_size b = pos b - 1"
    using assms by (simp add: buffer_wf_def)
  then show ?thesis
    using assms False
    by (auto simp: ReplayBuffer_valid_idxes_def Let_def set_py_range buffer_wf_def)
qed

lemma drawn_from_list:
  assumes "randint 0 (int (length vs)) n g = Inr (js, g')"
  shows "set (map (\<lambda>j. vs ! nat j) js) \<subseteq> set vs"
proof
  fix x assume "x \<in> set (map (\<lambda>j. vs ! nat j) js)"
  then obtain j where j: "j \<in> set js" "x = vs ! nat j" by auto
  then have "0 \<le> j \<and> j < int (length vs)" using randint_range[OF assms] by simp
  then have "nat j < length vs" by (simp add: nat_less_iff)
  then show "x \<in> set vs" using j by simp
qed

lemma batch_idxes_full:
  assumes "full b" and "ReplayBuffer_batch_idxes b n nxt g = Inr (idxs, g')"
  shows "set idxs \<subseteq> set (ReplayBuffer_valid_idxes b nxt)"
  using assms drawn_from_list[of "ReplayBuffer_valid_idxes b nxt" n g]
  by (auto simp: ReplayBuffer_batch_idxes_def Let_def split: sum.splits prod.splits)

lemma randint_of_words:
  assumes "\<forall>j \<in> set js. j < m"
  shows "randint 0 (int m) (int (length js)) (nth js)
           = Inr (map int js, \<lambda>i. js ! (i + length js)) \<or> js = []"
proof (cases "js = []")
  case False
  then have m: "0 < m" using assms by (cases js) auto
  have "map (\<lambda>i. int (js ! i) mod int m) [0..<length js] = map int js"
    using assms by (intro nth_equalityI) (simp_all add: zmod_int[symmetric])
  then show ?thesis using m by (simp add: randint_def)
qed simp

lemma batch_idxes_attains:
  assumes "full b" and "0 < n" and "length want = nat n"
    and "set want \<subseteq> set (ReplayBuffer_valid_idxes b nxt)"
  shows "\<exists>g g'. ReplayBuffer_batch_idxes b n nxt g = Inr (want, g')"
proof -
  let ?v = "ReplayBuffer_valid_idxes b nxt"
  have "\<forall>x \<in> set want. \<exists>j. j < length ?v \<and> ?v ! j = x"
    using assms(4) by (auto simp: in_set_conv_nth)
  then obtain f where f: "\<forall>x \<in> set want. f x < length ?v \<and> ?v ! f x = x"
    by metis
  let ?js = "map f want"
  have ne: "?js \<noteq> []" using assms(2,3) by auto
  have "\<forall>j \<in> set ?js. j < length ?v" using f by auto
  then have r: "randint 0 (int (length ?v)) (int (length ?js)) (nth ?js)
      = Inr (map int ?js, \<lambda>i. ?js ! (i + length ?js))"
    using randint_of_words[of ?js "length ?v"] ne by blast
  have n: "int (length ?js) = n" using assms(2,3) by simp
  have "map (\<lambda>j. ?v ! nat j) (map int ?js) = want"
    using f by (simp add: map_idI)
  then have "ReplayBuffer_batch_idxes b n nxt (nth ?js)
      = Inr (want, \<lambda>i. ?js ! (i + length ?js))"
    using assms(1) r unfolding n by (simp add: ReplayBuffer_batch_idxes_def)
  then show ?thesis by blast
qed

text \<open>
  \<^bold>\<open>C1 (as amended).\<close> When the buffer is full, every index \<^verbatim>\<open>sample\<close> draws is a slot in
  \<open>[0, buffer_size)\<close>, and with \<^verbatim>\<open>sample_next_obs\<close> it is never the slot
  \<open>(pos - 1) mod buffer_size\<close>, whatever the random source gives. Nothing else is excluded:
  every batch of such indices is the draw of some random outcome. So with
  \<^verbatim>\<open>sample_next_obs\<close> the indices that can be drawn are exactly the slots other than
  \<open>(pos - 1) mod buffer_size\<close>, and without it they are all of \<open>[0, buffer_size)\<close>, the
  cursor \<open>pos\<close> among them.
\<close>

theorem sample_full_drawn_indices:
  assumes "buffer_wf b" and "full b"
  shows "(\<forall>g idxs g'. ReplayBuffer_batch_idxes b n nxt g = Inr (idxs, g') \<longrightarrow>
            (\<forall>i \<in> set idxs. 0 \<le> i \<and> i < buffer_size b
                \<and> (nxt \<longrightarrow> i \<noteq> (pos b - 1) mod buffer_size b)))
    \<and> (\<forall>want. 0 < n \<and> length want = nat n
            \<and> (\<forall>i \<in> set want. 0 \<le> i \<and> i < buffer_size b
                  \<and> (nxt \<longrightarrow> i \<noteq> (pos b - 1) mod buffer_size b))
          \<longrightarrow> (\<exists>g g'. ReplayBuffer_batch_idxes b n nxt g = Inr (want, g')))"
proof (intro conjI allI impI)
  fix g idxs g'
  assume "ReplayBuffer_batch_idxes b n nxt g = Inr (idxs, g')"
  then have "set idxs \<subseteq> set (ReplayBuffer_valid_idxes b nxt)"
    using batch_idxes_full[OF assms(2)] by blast
  then show "\<forall>i \<in> set idxs. 0 \<le> i \<and> i < buffer_size b
                \<and> (nxt \<longrightarrow> i \<noteq> (pos b - 1) mod buffer_size b)"
    using valid_idxes_set[OF assms(1), of nxt] by auto
next
  fix want
  assume a: "0 < n \<and> length want = nat n
            \<and> (\<forall>i \<in> set want. 0 \<le> i \<and> i < buffer_size b
                  \<and> (nxt \<longrightarrow> i \<noteq> (pos b - 1) mod buffer_size b))"
  then have "set want \<subseteq> set (ReplayBuffer_valid_idxes b nxt)"
    using valid_idxes_set[OF assms(1), of nxt] by auto
  then show "\<exists>g g'. ReplayBuffer_batch_idxes b n nxt g = Inr (want, g')"
    using batch_idxes_attains[OF assms(2), of n want nxt] a by blast
qed

theorem sample_full_drawn_indices_witness:
  "buffer_wf (after_add (fresh_buffer 5 1) (numbered 0 7))
   \<and> full (after_add (fresh_buffer 5 1) (numbered 0 7))
   \<and> pos (after_add (fresh_buffer 5 1) (numbered 0 7)) = 2
   \<and> buffer_size (after_add (fresh_buffer 5 1) (numbered 0 7)) = 5
   \<and> ReplayBuffer_batch_idxes (after_add (fresh_buffer 5 1) (numbered 0 7)) 3 True (\<lambda>i. i)
       = Inr ([0, 2, 3], \<lambda>i. i + 3)
   \<and> (3::int) \<noteq> (2 - 1) mod 5
   \<and> (\<exists>g g'. ReplayBuffer_batch_idxes (after_add (fresh_buffer 5 1) (numbered 0 7)) 3 True g
                = Inr ([4, 0, 2], g'))"
proof -
  let ?B = "after_add (fresh_buffer 5 1) (numbered 0 7)"
  have f: "full ?B" "pos ?B = 2" "buffer_size ?B = 5"
    by (simp_all add: full_buffer_5)
  have d: "ReplayBuffer_batch_idxes ?B 3 True (\<lambda>i. i) = Inr ([0, 2, 3], \<lambda>i. i + 3)"
    unfolding full_buffer_5
    by (simp add: ReplayBuffer_batch_idxes_def ReplayBuffer_valid_idxes_def randint_def
        py_range_def Let_def upt_rec[of _ "nat 3"] numeral_3_eq_3)
  have w: "(0::int) < 3 \<and> length [4, 0, 2::int] = nat 3
      \<and> (\<forall>i \<in> set [4, 0, 2::int]. 0 \<le> i \<and> i < buffer_size ?B
            \<and> (True \<longrightarrow> i \<noteq> (pos ?B - 1) mod buffer_size ?B))"
    by (simp add: f)
  have "\<exists>g g'. ReplayBuffer_batch_idxes ?B 3 True g = Inr ([4, 0, 2], g')"
    using sample_full_drawn_indices[OF full_buffer_5_wf f(1), of 3 True] w by blast
  moreover have "\<forall>i \<in> set [0, 2, 3::int]. i \<noteq> (pos ?B - 1) mod buffer_size ?B"
    using sample_full_drawn_indices[OF full_buffer_5_wf f(1), of 3 True] d by blast
  ultimately show ?thesis
    using f d full_buffer_5_wf by simp
qed

text \<open>
  As first stated, with \<open>pos\<close> excluded, the property fails without \<^verbatim>\<open>sample_next_obs\<close>: on the full buffer of C4,
  whose cursor is 2, the draw whose raw word is 2 returns the index 2.
\<close>

theorem sample_full_draws_pos:
  "full (after_add (fresh_buffer 5 1) (numbered 0 7))
   \<and> pos (after_add (fresh_buffer 5 1) (numbered 0 7)) = 2
   \<and> map_sum id fst
       (ReplayBuffer_batch_idxes (after_add (fresh_buffer 5 1) (numbered 0 7)) 1 False (\<lambda>i. 2))
       = Inr [2]"
  by code_simp

subsection \<open>Sequential sampling: the windows\<close>

lemma seq_valid_range:
  assumes "buffer_wf b" and "s \<in> set (SequentialReplayBuffer_valid_idxes b sl)" and "0 \<le> sl"
  shows "0 \<le> s \<and> s < buffer_size b"
  using assms
  by (auto simp: SequentialReplayBuffer_valid_idxes_def Let_def set_py_range buffer_wf_def
      split: if_splits)

lemma seq_valid_window:
  assumes wf: "buffer_wf b" and s: "s \<in> set (SequentialReplayBuffer_valid_idxes b sl)"
    and sl: "sl \<le> buffer_size b" and k: "0 < k" "k < sl"
  shows "(s + k) mod buffer_size b \<noteq> pos b"
proof -
  have r: "0 \<le> s" "s < buffer_size b" using seq_valid_range[OF wf s] k by simp_all
  have m: "(s + k) mod buffer_size b = (if s + k < buffer_size b then s + k else s + k - buffer_size b)"
    using r k sl by (intro mod_once) simp_all
  show ?thesis
    using s wf sl k unfolding m
    by (auto simp: SequentialReplayBuffer_valid_idxes_def Let_def set_py_range buffer_wf_def
        split: if_splits)
qed

lemma seq_sample_success:
  assumes "buffer_wf b" and "SequentialReplayBuffer_sample b bs nxt cl sl ns g = (Inr res, b')"
  shows "\<exists>starts g1 windows.
      SequentialReplayBuffer_start_idxes b (bs * ns) sl g = Inr (starts, g1)
    \<and> SequentialReplayBuffer_idxes b starts sl = Inr windows
    \<and> 0 < bs * ns \<and> bs * ns \<le> buffer_size b \<and> 0 \<le> sl
    \<and> (if full b then sl \<le> buffer_size b else sl \<le> pos b)"
  using assms
  by (auto simp: SequentialReplayBuffer_sample_def Let_def buffer_wf_def td_of_shape_def
      SequentialReplayBuffer_idxes_def arange_def
      split: sum.splits prod.splits option.splits list.splits if_splits)

lemma start_idxes_full:
  assumes "full b" and "SequentialReplayBuffer_start_idxes b n sl g = Inr (starts, g')"
  shows "set starts \<subseteq> set (SequentialReplayBuffer_valid_idxes b sl)" and "length starts = nat n"
  using assms drawn_from_list[of "SequentialReplayBuffer_valid_idxes b sl" n g]
    randint_Inr(3)[of 0 "int (length (SequentialReplayBuffer_valid_idxes b sl))" n g]
  by (auto simp: SequentialReplayBuffer_start_idxes_def Let_def split: sum.splits prod.splits if_splits)

lemma idxes_windows:
  assumes "SequentialReplayBuffer_idxes b starts sl = Inr windows"
  shows "length windows = length starts"
    and "n < length starts \<Longrightarrow> length (windows ! n) = nat sl"
    and "n < length starts \<Longrightarrow> k < nat sl \<Longrightarrow>
           windows ! n ! k = (starts ! n + int k) mod buffer_size b"
  using assms
  by (auto simp: SequentialReplayBuffer_idxes_def arange_def length_py_range nth_py_range
      split: if_splits)

text \<open>
  \<^bold>\<open>C3 (as amended).\<close> When the buffer is full and \<^verbatim>\<open>SequentialReplayBuffer.sample\<close>
  returns, every window it drew starts at a slot and runs over \<open>sequence_length\<close>
  consecutive slots modulo \<open>buffer_size\<close>, and the cursor slot \<open>pos\<close> can only be the first
  step of a window: no later step of a window is \<open>pos\<close>. Equivalently, no drawn start lies
  in \<open>[pos - sequence_length + 1, pos - 1]\<close> modulo \<open>buffer_size\<close>. A window may start at
  \<open>pos\<close>, the oldest record.
\<close>

theorem sequential_windows_full:
  assumes "buffer_wf b" and "full b"
    and "SequentialReplayBuffer_sample b bs nxt cl sl ns g = (Inr res, b')"
  shows "\<exists>starts g1 windows.
      SequentialReplayBuffer_start_idxes b (bs * ns) sl g = Inr (starts, g1)
    \<and> SequentialReplayBuffer_idxes b starts sl = Inr windows
    \<and> length starts = nat (bs * ns) \<and> length windows = length starts
    \<and> (\<forall>n < length starts.
          0 \<le> starts ! n \<and> starts ! n < buffer_size b
        \<and> length (windows ! n) = nat sl
        \<and> (\<forall>k < nat sl. windows ! n ! k = (starts ! n + int k) mod buffer_size b)
        \<and> (\<forall>k. 0 < k \<and> k < nat sl \<longrightarrow> windows ! n ! k \<noteq> pos b)
        \<and> (\<forall>j. 0 < j \<and> j < sl \<longrightarrow> starts ! n \<noteq> (pos b - j) mod buffer_size b))"
proof -
  obtain starts g1 windows where
    st: "SequentialReplayBuffer_start_idxes b (bs * ns) sl g = Inr (starts, g1)"
    and wi: "SequentialReplayBuffer_idxes b starts sl = Inr windows"
    and sl: "0 \<le> sl" "sl \<le> buffer_size b"
    using seq_sample_success[OF assms(1,3)] assms(2) by auto
  have key: "0 \<le> starts ! n \<and> starts ! n < buffer_size b
        \<and> length (windows ! n) = nat sl
        \<and> (\<forall>k < nat sl. windows ! n ! k = (starts ! n + int k) mod buffer_size b)
        \<and> (\<forall>k. 0 < k \<and> k < nat sl \<longrightarrow> windows ! n ! k \<noteq> pos b)
        \<and> (\<forall>j. 0 < j \<and> j < sl \<longrightarrow> starts ! n \<noteq> (pos b - j) mod buffer_size b)"
    if n: "n < length starts" for n
  proof -
    have v: "starts ! n \<in> set (SequentialReplayBuffer_valid_idxes b sl)"
      using start_idxes_full(1)[OF assms(2) st] n by auto
    have a: "0 \<le> starts ! n \<and> starts ! n < buffer_size b"
      using seq_valid_range[OF assms(1) v sl(1)] .
    have c: "windows ! n ! k \<noteq> pos b" if "0 < k" "k < nat sl" for k
      using seq_valid_window[OF assms(1) v sl(2), of "int k"] idxes_windows(3)[OF wi n that(2)] that
      by simp
    have d: "starts ! n \<noteq> (pos b - j) mod buffer_size b" if j: "0 < j" "j < sl" for j
    proof
      assume e: "starts ! n = (pos b - j) mod buffer_size b"
      have "(starts ! n + j) mod buffer_size b = (pos b - j + j) mod buffer_size b"
        unfolding e by (rule mod_add_left_eq)
      also have "\<dots> = pos b" using assms(1) by (simp add: buffer_wf_def)
      finally show False using seq_valid_window[OF assms(1) v sl(2) j] by simp
    qed
    show ?thesis
      using a c d idxes_windows(2,3)[OF wi n] by blast
  qed
  show ?thesis
    using st wi start_idxes_full(2)[OF assms(2) st] idxes_windows(1)[OF wi] key by blast
qed

theorem sequential_windows_full_witness:
  "buffer_wf (after_add (fresh_buffer 5 1) (numbered 0 7))
   \<and> full (after_add (fresh_buffer 5 1) (numbered 0 7))
   \<and> (\<exists>res. SequentialReplayBuffer_sample (after_add (fresh_buffer 5 1) (numbered 0 7))
                1 False False 2 1 (\<lambda>i. 0)
              = (Inr res, after_add (fresh_buffer 5 1) (numbered 0 7)))
   \<and> (\<exists>starts g1 windows.
         SequentialReplayBuffer_start_idxes (after_add (fresh_buffer 5 1) (numbered 0 7))
           (1 * 1) 2 (\<lambda>i. 0) = Inr (starts, g1)
       \<and> SequentialReplayBuffer_idxes (after_add (fresh_buffer 5 1) (numbered 0 7)) starts 2
           = Inr windows
       \<and> length starts = nat (1 * 1)
       \<and> (\<forall>n < length starts. \<forall>k. 0 < k \<and> k < nat 2 \<longrightarrow>
             windows ! n ! k \<noteq> pos (after_add (fresh_buffer 5 1) (numbered 0 7))))"
proof -
  let ?B = "after_add (fresh_buffer 5 1) (numbered 0 7)"
  let ?S = "SequentialReplayBuffer_sample ?B 1 False False 2 1 (\<lambda>i. 0)"
  have f: "full ?B" by (simp add: full_buffer_5)
  have "case fst ?S of Inl e \<Rightarrow> False | Inr r \<Rightarrow> True" by code_simp
  then obtain res where "fst ?S = Inr res" by (cases "fst ?S") auto
  then have e: "?S = (Inr res, ?B)"
    using sequential_sample_state[of ?B 1 False False 2 1 "\<lambda>i. 0"] by (cases ?S) simp
  show ?thesis
    using sequential_windows_full[OF full_buffer_5_wf f e] full_buffer_5_wf f e by blast
qed

text \<open>
  As first stated, with no step of a window at \<open>pos\<close>, the property fails: on the full buffer of C4, whose cursor is 2, the draw
  whose raw word is 1 gives the start index 2, and the window of length 2 is the slots 2
  and 3.
\<close>

theorem sequential_window_starts_at_pos:
  "full (after_add (fresh_buffer 5 1) (numbered 0 7))
   \<and> pos (after_add (fresh_buffer 5 1) (numbered 0 7)) = 2
   \<and> map_sum id fst
       (SequentialReplayBuffer_start_idxes (after_add (fresh_buffer 5 1) (numbered 0 7)) 1 2 (\<lambda>i. 1))
       = Inr [2]
   \<and> SequentialReplayBuffer_idxes (after_add (fresh_buffer 5 1) (numbered 0 7)) [2] 2
       = Inr [[2, 3]]
   \<and> map_sum id fst
       (fst (SequentialReplayBuffer_sample (after_add (fresh_buffer 5 1) (numbered 0 7))
               1 False False 2 1 (\<lambda>i. 1)))
       = Inr [[[2], [3]]]"
  by code_simp

subsection \<open>Uniform sampling: the outcome\<close>

lemma py_get_in_range:
  "0 \<le> i \<Longrightarrow> i < int (length xs) \<Longrightarrow> py_get xs i = Some (xs ! nat i)"
  by (simp add: py_get_def py_position_def)

lemma td_cell_in_range:
  assumes "td_of_shape t n e" and "0 \<le> i" "i < n" and "0 \<le> j" "j < e"
  shows "td_cell t i j = Some (rows t ! nat i ! nat j)"
proof -
  have l: "int (length (rows t)) = n" and a: "list_all (\<lambda>r. int (length r) = e) (rows t)"
    using assms(1) by (simp_all add: td_of_shape_def)
  have "nat i < length (rows t)" using assms(2,3) l by (simp add: nat_less_iff)
  then have "int (length (rows t ! nat i)) = e" using a by (simp add: list_all_length)
  then show ?thesis
    using assms l by (simp add: td_cell_def py_get_in_range)
qed

lemma td_gather_ok:
  assumes "td_of_shape t n e" and "length idxs = length envs"
    and "\<forall>i \<in> set idxs. 0 \<le> i \<and> i < n" and "\<forall>j \<in> set envs. 0 \<le> j \<and> j < e"
  shows "td_gather t idxs envs = Inr (map (\<lambda>(i, j). rows t ! nat i ! nat j) (zip idxs envs))"
proof -
  have c: "td_cell t i j = Some (rows t ! nat i ! nat j)" if "(i, j) \<in> set (zip idxs envs)" for i j
    using td_cell_in_range[OF assms(1), of i j] assms(3,4) that
    by (auto dest: set_zip_leftD set_zip_rightD)
  then have m: "map (\<lambda>(i, e). td_cell t i e) (zip idxs envs)
      = map Some (map (\<lambda>(i, j). rows t ! nat i ! nat j) (zip idxs envs))"
    by auto
  have "td_gather t idxs envs = collect (map (\<lambda>(i, e). td_cell t i e) (zip idxs envs))"
    using assms(2) by (simp add: td_gather_def)
  also have "\<dots> = Inr (map (\<lambda>(i, j). rows t ! nat i ! nat j) (zip idxs envs))"
    unfolding m by (rule collect_map_Some)
  finally show ?thesis .
qed

lemma get_samples_ok:
  assumes wf: "buffer_wf b" and t: "buf b = Some t"
    and ix: "\<forall>i \<in> set batch_idxes. 0 \<le> i \<and> i < buffer_size b"
    and ob: "nxt \<Longrightarrow> records_have_observations observations b"
  shows "\<exists>r. ReplayBuffer_get_samples observations b batch_idxes nxt g = Inr r"
proof -
  have sh: "td_of_shape t (buffer_size b) (n_envs b)" and e: "0 < n_envs b" and c: "0 < buffer_size b"
    using wf t by (simp_all add: buffer_wf_def)
  obtain envs g' where r: "randint 0 (n_envs b) (int (length batch_idxes)) g = Inr (envs, g')"
    using randint_ok[of 0 "n_envs b" "int (length batch_idxes)" g] e by auto
  have le: "length batch_idxes = length envs" using randint_Inr(3)[OF r] by simp
  have er: "\<forall>j \<in> set envs. 0 \<le> j \<and> j < n_envs b" using randint_range[OF r] by simp
  have g1: "td_gather t batch_idxes envs
      = Inr (map (\<lambda>(i, j). rows t ! nat i ! nat j) (zip batch_idxes envs))"
    using td_gather_ok[OF sh le ix er] .
  show ?thesis
  proof (cases nxt)
    case False
    then show ?thesis using r t g1 by (simp add: ReplayBuffer_get_samples_def)
  next
    case True
    let ?nx = "map (\<lambda>i. (i + 1) mod buffer_size b) batch_idxes"
    have nr: "\<forall>i \<in> set ?nx. 0 \<le> i \<and> i < buffer_size b" using c by simp
    have g2: "td_gather t ?nx envs = Inr (map (\<lambda>(i, j). rows t ! nat i ! nat j) (zip ?nx envs))"
      using td_gather_ok[OF sh _ nr er] le by simp
    have all: "list_all (list_all (\<lambda>c. observations c \<noteq> None)) (rows t)"
      using ob[OF True] t by (simp add: records_have_observations_def)
    have len: "int (length (rows t)) = buffer_size b"
      and rl: "list_all (\<lambda>r. int (length r) = n_envs b) (rows t)"
      using sh by (simp_all add: td_of_shape_def)
    have "observations (rows t ! nat i ! nat j) \<noteq> None"
      if "(i, j) \<in> set (zip ?nx envs)" for i j
    proof -
      have "i \<in> set ?nx" using that by (rule set_zip_leftD)
      then have i: "0 \<le> i \<and> i < buffer_size b" using nr by blast
      have "j \<in> set envs" using that by (rule set_zip_rightD)
      then have j: "0 \<le> j \<and> j < n_envs b" using er by blast
      have a: "nat i < length (rows t)" using i len by (simp add: nat_less_iff)
      then have "int (length (rows t ! nat i)) = n_envs b" using rl by (simp add: list_all_length)
      then have b: "nat j < length (rows t ! nat i)" using j by (simp add: nat_less_iff)
      show ?thesis using all a b by (simp add: list_all_length)
    qed
    then have "list_all (\<lambda>x. x \<noteq> None)
        (map observations (map (\<lambda>(i, j). rows t ! nat i ! nat j) (zip ?nx envs)))"
      by (auto simp: list_all_iff)
    then have "collect (map observations (map (\<lambda>(i, j). rows t ! nat i ! nat j) (zip ?nx envs)))
      = Inr (map the (map observations (map (\<lambda>(i, j). rows t ! nat i ! nat j) (zip ?nx envs))))"
      by (rule collect_all_Some)
    then show ?thesis
      using True r t g1 g2 by (simp add: ReplayBuffer_get_samples_def)
  qed
qed

lemma get_samples_Inl:
  "ReplayBuffer_get_samples observations b batch_idxes nxt g = Inl e \<Longrightarrow>
     e = BackendError \<or> e = UninitializedStorageError"
  by (auto simp: ReplayBuffer_get_samples_def td_gather_def
      dest: randint_Inl collect_Inl split: sum.splits prod.splits option.splits if_splits)

lemma valid_idxes_nonempty:
  assumes "buffer_wf b" and "\<not> (nxt \<and> buffer_size b = 1)"
  shows "0 < int (length (ReplayBuffer_valid_idxes b nxt))"
proof -
  have "set (ReplayBuffer_valid_idxes b nxt) \<noteq> {}"
  proof (cases "nxt")
    case False
    then have "0 \<in> set (ReplayBuffer_valid_idxes b nxt)"
      using assms(1) valid_idxes_set[OF assms(1), of nxt] by (simp add: buffer_wf_def)
    then show ?thesis by auto
  next
    case True
    then have c: "1 < buffer_size b" using assms by (simp add: buffer_wf_def)
    have "0 \<in> set (ReplayBuffer_valid_idxes b nxt) \<or> 1 \<in> set (ReplayBuffer_valid_idxes b nxt)"
      using c valid_idxes_set[OF assms(1), of nxt] by auto
    then show ?thesis by auto
  qed
  then show ?thesis by simp
qed

lemma batch_idxes_Inl:
  assumes "buffer_wf b" and "full b \<or> pos b \<noteq> 0"
    and "ReplayBuffer_batch_idxes b n nxt g = Inl e"
  shows "e = InsufficientDataError \<and> \<not> full b \<and> nxt \<and> pos b = 1 \<or> e = BackendError"
  using assms
  by (auto simp: ReplayBuffer_batch_idxes_def Let_def buffer_wf_def
      dest: randint_Inl split: sum.splits prod.splits if_splits)

lemma batch_idxes_insufficient:
  assumes "\<not> full b" and "nxt" and "pos b = 1"
  shows "ReplayBuffer_batch_idxes b n nxt g = Inl InsufficientDataError"
  using assms by (simp add: ReplayBuffer_batch_idxes_def)

lemma batch_idxes_ok:
  assumes wf: "buffer_wf b" and n: "0 < n" and w: "full b \<or> pos b \<noteq> 0"
    and a: "\<not> (\<not> full b \<and> nxt \<and> pos b = 1)" and c: "\<not> (full b \<and> nxt \<and> buffer_size b = 1)"
  shows "\<exists>idxs g'. ReplayBuffer_batch_idxes b n nxt g = Inr (idxs, g')
           \<and> (\<forall>i \<in> set idxs. 0 \<le> i \<and> i < buffer_size b)"
proof (cases "full b")
  case True
  have l: "0 < int (length (ReplayBuffer_valid_idxes b nxt))"
    using c True by (intro valid_idxes_nonempty[OF wf]) simp
  have n0: "0 \<le> n" using n by simp
  obtain js g' where
    r: "randint 0 (int (length (ReplayBuffer_valid_idxes b nxt))) n g = Inr (js, g')"
    using randint_ok[OF l n0, of g] by blast
  then have e: "ReplayBuffer_batch_idxes b n nxt g
      = Inr (map (\<lambda>j. ReplayBuffer_valid_idxes b nxt ! nat j) js, g')"
    using True by (simp add: ReplayBuffer_batch_idxes_def)
  have "set (map (\<lambda>j. ReplayBuffer_valid_idxes b nxt ! nat j) js)
      \<subseteq> set (ReplayBuffer_valid_idxes b nxt)"
    using drawn_from_list[OF r] .
  then have "\<forall>i \<in> set (map (\<lambda>j. ReplayBuffer_valid_idxes b nxt ! nat j) js).
      0 \<le> i \<and> i < buffer_size b"
    using valid_idxes_set[OF wf, of nxt] by auto
  then show ?thesis using e by blast
next
  case False
  let ?m = "if nxt then pos b - 1 else pos b"
  have m: "0 < ?m" "?m \<le> buffer_size b"
    using False w a wf by (auto simp: buffer_wf_def)
  have n0: "0 \<le> n" using n by simp
  obtain xs g' where r: "randint 0 ?m n g = Inr (xs, g')"
    using randint_ok[OF m(1) n0, of g] by blast
  then have e: "ReplayBuffer_batch_idxes b n nxt g = Inr (xs, g')"
    using False m by (simp add: ReplayBuffer_batch_idxes_def)
  have "\<forall>i \<in> set xs. 0 \<le> i \<and> i < buffer_size b"
    using randint_range[OF r] m(2) by force
  then show ?thesis using e by blast
qed

text \<open>
  The outcome of \<^verbatim>\<open>sample\<close> on every buffer but a full one of a single slot sampled with
  \<^verbatim>\<open>sample_next_obs\<close>: \<open>InvalidArgument\<close> exactly when \<open>batch_size \<le> 0\<close>; for a positive
  \<open>batch_size\<close>, \<open>EmptyBufferError\<close> exactly when nothing has been written; with records
  present, \<open>InsufficientDataError\<close> exactly when the buffer is not full, \<^verbatim>\<open>sample_next_obs\<close>
  is set and \<open>pos = 1\<close>; and a sample otherwise, the stored records carrying the
  observations field when it is asked for.
\<close>

lemma sample_outcome:
  assumes wf: "buffer_wf b"
  shows "(fst (ReplayBuffer_sample observations b n nxt cl g) = Inl InvalidArgument \<longleftrightarrow> n \<le> 0)
    \<and> (0 < n \<longrightarrow>
         (fst (ReplayBuffer_sample observations b n nxt cl g) = Inl EmptyBufferError
            \<longleftrightarrow> \<not> full b \<and> pos b = 0))
    \<and> (0 < n \<and> (full b \<or> pos b \<noteq> 0) \<longrightarrow>
         (fst (ReplayBuffer_sample observations b n nxt cl g) = Inl InsufficientDataError
            \<longleftrightarrow> \<not> full b \<and> nxt \<and> pos b = 1))
    \<and> (0 < n \<and> (full b \<or> pos b \<noteq> 0) \<and> \<not> (\<not> full b \<and> nxt \<and> pos b = 1)
         \<and> \<not> (full b \<and> nxt \<and> buffer_size b = 1)
         \<and> (nxt \<longrightarrow> records_have_observations observations b) \<longrightarrow>
         (\<exists>r. fst (ReplayBuffer_sample observations b n nxt cl g) = Inr r))"
proof -
  let ?S = "ReplayBuffer_sample observations b n nxt cl g"
  have 1: "?S = (Inl InvalidArgument, b)" if "n \<le> 0"
    using that by (simp add: ReplayBuffer_sample_def)
  have 2: "?S = (Inl EmptyBufferError, b)" if "0 < n" "\<not> full b \<and> pos b = 0"
    using that by (simp add: ReplayBuffer_sample_def)
  have 3: "?S = (Inl InsufficientDataError, b)"
    if "0 < n" "full b \<or> pos b \<noteq> 0" "\<not> full b \<and> nxt \<and> pos b = 1"
    using that batch_idxes_insufficient[of b nxt n g] by (simp add: ReplayBuffer_sample_def)
  have 4: "fst ?S = Inl BackendError \<or> fst ?S = Inl UninitializedStorageError \<or> (\<exists>r. fst ?S = Inr r)"
    if h: "0 < n" "full b \<or> pos b \<noteq> 0" "\<not> (\<not> full b \<and> nxt \<and> pos b = 1)"
  proof (cases "ReplayBuffer_batch_idxes b n nxt g")
    case (Inl e)
    then have "e = BackendError" using batch_idxes_Inl[OF wf h(2) Inl] h(3) by auto
    then show ?thesis using h Inl by (simp add: ReplayBuffer_sample_def)
  next
    case bi: (Inr p)
    obtain idxs g1 where p: "p = (idxs, g1)" by (cases p)
    show ?thesis
    proof (cases "ReplayBuffer_get_samples observations b idxs nxt g1")
      case (Inl e)
      then show ?thesis
        using h bi p get_samples_Inl[OF Inl] by (auto simp: ReplayBuffer_sample_def)
    next
      case (Inr q)
      then show ?thesis
        using h bi p
        by (auto simp: ReplayBuffer_sample_def Let_def split: prod.splits)
    qed
  qed
  have 5: "\<exists>r. fst ?S = Inr r"
    if h: "0 < n" "full b \<or> pos b \<noteq> 0" "\<not> (\<not> full b \<and> nxt \<and> pos b = 1)"
      "\<not> (full b \<and> nxt \<and> buffer_size b = 1)" "nxt \<longrightarrow> records_have_observations observations b"
  proof -
    obtain idxs g1 where
      bi: "ReplayBuffer_batch_idxes b n nxt g = Inr (idxs, g1)"
      and ir: "\<forall>i \<in> set idxs. 0 \<le> i \<and> i < buffer_size b"
      using batch_idxes_ok[OF wf h(1,2,3,4), of g] by blast
    obtain t where t: "buf b = Some t"
      using wf h(2) by (cases "buf b") (auto simp: buffer_wf_def)
    obtain q where "ReplayBuffer_get_samples observations b idxs nxt g1 = Inr q"
      using get_samples_ok[OF wf t ir, of nxt observations g1] h(5) by blast
    then show ?thesis
      using h bi by (auto simp: ReplayBuffer_sample_def Let_def split: prod.splits)
  qed
  show ?thesis
  proof (cases "n \<le> 0")
    case True
    then show ?thesis using 1 by simp
  next
    case n: False
    show ?thesis
    proof (cases "\<not> full b \<and> pos b = 0")
      case True
      then show ?thesis using n 2 by auto
    next
      case w: False
      show ?thesis
      proof (cases "\<not> full b \<and> nxt \<and> pos b = 1")
        case True
        then have "?S = (Inl InsufficientDataError, b)" using n w 3 by auto
        then show ?thesis using n w True by auto
      next
        case False
        have "fst ?S = Inl BackendError \<or> fst ?S = Inl UninitializedStorageError
            \<or> (\<exists>r. fst ?S = Inr r)"
          using n w False by (intro 4) auto
        moreover have "\<not> (full b \<and> nxt \<and> buffer_size b = 1)
            \<and> (nxt \<longrightarrow> records_have_observations observations b) \<longrightarrow> (\<exists>r. fst ?S = Inr r)"
          using n w False 5 by auto
        ultimately show ?thesis using n w False by auto
      qed
    qed
  qed
qed

lemma sample_outcome_example:
  "buffer_wf (after_add (fresh_buffer 5 1) (numbered 0 7))
   \<and> full (after_add (fresh_buffer 5 1) (numbered 0 7))
   \<and> buffer_size (after_add (fresh_buffer 5 1) (numbered 0 7)) = 5
   \<and> records_have_observations (Some :: nat \<Rightarrow> nat option)
        (after_add (fresh_buffer 5 1) (numbered 0 7))
   \<and> (\<exists>r. fst (ReplayBuffer_sample (Some :: nat \<Rightarrow> nat option)
                 (after_add (fresh_buffer 5 1) (numbered 0 7)) 2 True False (\<lambda>i. i)) = Inr r)"
proof -
  let ?B = "after_add (fresh_buffer 5 1) (numbered 0 7)"
  have f: "full ?B" "buffer_size ?B = 5"
    by (simp_all add: full_buffer_5)
  have o: "records_have_observations (Some :: nat \<Rightarrow> nat option) ?B"
    unfolding full_buffer_5 by (simp add: records_have_observations_def)
  show ?thesis
    using sample_outcome[OF full_buffer_5_wf,
        of "Some :: nat \<Rightarrow> nat option" 2 True False "\<lambda>i. i"]
      full_buffer_5_wf f o
    by simp
qed

text \<open>
  \<^bold>\<open>C6.\<close> \<^verbatim>\<open>sample\<close> should raise \<open>InvalidArgument\<close> exactly when \<open>batch_size \<le> 0\<close>,
  \<open>EmptyBufferError\<close> exactly when nothing has been written, \<open>InsufficientDataError\<close> when
  \<^verbatim>\<open>sample_next_obs\<close> is set on a buffer that is not full and holds one record, and return a
  sample in every other case. The code does so (\<open>sample_outcome\<close>) except on a full buffer
  of one slot sampled with \<^verbatim>\<open>sample_next_obs\<close>: there the list of valid indices is empty
  and lines 149 to 153 give it to \<^verbatim>\<open>randint(0, 0)\<close> unguarded, which raises an error of
  torch's own, where the branch for a buffer that is not full (lines 155 to 160) checks
  for the empty range and raises the typed error.
\<close>

theorem sample_one_slot_next_obs_raises:
  "buffer_wf (after_add (fresh_buffer 1 1) (numbered 0 1))
   \<and> full (after_add (fresh_buffer 1 1) (numbered 0 1))
   \<and> pos (after_add (fresh_buffer 1 1) (numbered 0 1)) = 0
   \<and> ReplayBuffer_valid_idxes (after_add (fresh_buffer 1 1) (numbered 0 1)) True = []
   \<and> (case fst (ReplayBuffer_sample (Some :: nat \<Rightarrow> nat option)
                  (after_add (fresh_buffer 1 1) (numbered 0 1)) 1 True False (\<lambda>i. 0)) of
         Inl e \<Rightarrow> e = BackendError
       | Inr r \<Rightarrow> False)"
  by code_simp

subsection \<open>Sequential sampling: the outcome\<close>

lemma start_idxes_Inl:
  "SequentialReplayBuffer_start_idxes b n sl g = Inl e \<Longrightarrow>
     e = BackendError \<or> (e = InsufficientDataError \<and> full b)"
  by (auto simp: SequentialReplayBuffer_start_idxes_def Let_def
      dest: randint_Inl split: sum.splits prod.splits if_splits)

lemma idxes_Inl: "SequentialReplayBuffer_idxes b starts sl = Inl e \<Longrightarrow> e = BackendError"
  by (auto simp: SequentialReplayBuffer_idxes_def arange_def split: sum.splits if_splits)

lemma sequential_get_samples_Inl:
  "SequentialReplayBuffer_get_samples b idxes nxt g = Inl e \<Longrightarrow> e = BackendError"
  by (auto simp: SequentialReplayBuffer_get_samples_def SequentialReplayBuffer_window_envs_def
      Let_def td_gather_def
      dest: randint_Inl collect_Inl split: sum.splits prod.splits option.splits if_splits)

lemma reshape_permute_Inl: "reshape_permute ns bs sl smp = Inl e \<Longrightarrow> e = BackendError"
  by (auto simp: reshape_permute_def split: if_splits)

lemma sequential_sample_Inl:
  assumes "fst (SequentialReplayBuffer_sample b bs nxt cl sl ns g) = Inl e"
  shows "(e = InvalidArgument \<and> bs * ns \<le> 0)
    \<or> (e = EmptyBufferError \<and> 0 < bs * ns \<and> \<not> full b \<and> pos b = 0)
    \<or> (e = CapacityError \<and> 0 < bs * ns \<and> (full b \<or> pos b \<noteq> 0))
    \<or> (e = InsufficientDataError \<and> 0 < bs * ns \<and> full b)
    \<or> (e = BackendError \<and> 0 < bs * ns \<and> (full b \<or> pos b \<noteq> 0))"
  using assms
  by (auto simp: SequentialReplayBuffer_sample_def Let_def
      dest!: start_idxes_Inl idxes_Inl sequential_get_samples_Inl reshape_permute_Inl
      split: sum.splits prod.splits option.splits list.splits if_splits)

lemma sequential_sample_outcome:
  assumes wf: "buffer_wf b"
  shows "fst (SequentialReplayBuffer_sample b bs nxt cl sl ns g) = Inl InvalidArgument
           \<longleftrightarrow> bs * ns \<le> 0"
    and "0 < bs * ns \<Longrightarrow> full b \<or> pos b \<noteq> 0 \<Longrightarrow>
           buffer_size b < bs * ns \<or> buffer_size b < sl \<or> (\<not> full b \<and> pos b - sl + 1 < 1) \<Longrightarrow>
           fst (SequentialReplayBuffer_sample b bs nxt cl sl ns g) = Inl CapacityError"
    and "0 < bs * ns \<Longrightarrow> bs * ns \<le> buffer_size b \<Longrightarrow> sl \<le> buffer_size b \<Longrightarrow> full b \<Longrightarrow>
           int (length (SequentialReplayBuffer_valid_idxes b sl)) < bs * ns \<Longrightarrow>
           fst (SequentialReplayBuffer_sample b bs nxt cl sl ns g) = Inl InsufficientDataError"
    and "\<not> full b \<Longrightarrow>
           fst (SequentialReplayBuffer_sample b bs nxt cl sl ns g) \<noteq> Inl InsufficientDataError"
proof -
  let ?S = "SequentialReplayBuffer_sample b bs nxt cl sl ns g"
  show "fst ?S = Inl InvalidArgument \<longleftrightarrow> bs * ns \<le> 0"
    using sequential_sample_Inl[of b bs nxt cl sl ns g InvalidArgument]
    by (auto simp: SequentialReplayBuffer_sample_def Let_def)
  show "fst ?S \<noteq> Inl InsufficientDataError" if "\<not> full b"
    using sequential_sample_Inl[of b bs nxt cl sl ns g InsufficientDataError] that by auto
  show "fst ?S = Inl CapacityError"
    if "0 < bs * ns" "full b \<or> pos b \<noteq> 0"
      "buffer_size b < bs * ns \<or> buffer_size b < sl \<or> (\<not> full b \<and> pos b - sl + 1 < 1)"
    using that wf
    by (auto simp: SequentialReplayBuffer_sample_def Let_def buffer_wf_def td_of_shape_def
        split: option.splits list.splits)
  show "fst ?S = Inl InsufficientDataError"
    if "0 < bs * ns" "bs * ns \<le> buffer_size b" "sl \<le> buffer_size b" "full b"
      "int (length (SequentialReplayBuffer_valid_idxes b sl)) < bs * ns"
    using that wf
    by (auto simp: SequentialReplayBuffer_sample_def SequentialReplayBuffer_start_idxes_def
        Let_def buffer_wf_def td_of_shape_def
        split: option.splits list.splits)
qed

text \<open>
  \<^bold>\<open>C7.\<close> The sequential sampler should raise \<open>InvalidArgument\<close> exactly when
  \<open>batch_size * n_samples \<le> 0\<close>, \<open>CapacityError\<close> when that count or \<open>sequence_length\<close> exceeds
  \<open>buffer_size\<close> or the records do not reach a window's length, and \<open>InsufficientDataError\<close>
  when there are fewer valid starts than windows asked for, full or not. The code does
  (\<open>sequential_sample_outcome\<close>), except for the last when not full. On a buffer of ten slots
  holding three records (not full, \<open>pos = 3\<close>), a request for \<open>2 * 1\<close> windows of length 3
  has one valid start, the index 0, fewer than the two windows asked for; the full branch
  raises \<open>InsufficientDataError\<close> in that situation (lines 257-260) and the not-full branch
  draws the start 0 twice and returns.
\<close>

theorem sequential_sample_not_full_few_starts:
  "\<not> full (after_add (fresh_buffer 10 1) (numbered 0 3))
   \<and> pos (after_add (fresh_buffer 10 1) (numbered 0 3)) = 3
   \<and> py_range 0 (pos (after_add (fresh_buffer 10 1) (numbered 0 3)) - 3 + 1) = [0]
   \<and> map_sum id fst
       (fst (SequentialReplayBuffer_sample (after_add (fresh_buffer 10 1) (numbered 0 3))
               2 False False 3 1 (\<lambda>i. i)))
       = Inr [[[0, 0], [1, 1], [2, 2]]]"
  by code_simp

subsection \<open>Sequential sampling: one environment per window\<close>

lemma concat_rect_nth:
  assumes "list_all (\<lambda>r. length r = m) xss" and "w < length xss" and "k < m"
  shows "concat xss ! (w * m + k) = xss ! w ! k"
  using assms
proof (induction xss arbitrary: w)
  case Nil
  then show ?case by simp
next
  case (Cons xs xss)
  show ?case
  proof (cases w)
    case 0
    then show ?thesis using Cons.prems by (simp add: nth_append)
  next
    case (Suc v)
    then have "concat xss ! (v * m + k) = xss ! v ! k"
      using Cons.IH[of v] Cons.prems by simp
    moreover have "(xs @ concat xss) ! (Suc v * m + k) = concat xss ! (v * m + k)"
      using Cons.prems by (simp add: nth_append)
    ultimately show ?thesis using Suc by simp
  qed
qed

lemma length_concat_rect:
  "list_all (\<lambda>r. length r = m) xss \<Longrightarrow> length (concat xss) = length xss * m"
  by (induction xss) auto

lemma rect_position:
  fixes w k m n :: nat
  assumes "w < n" and "k < m"
  shows "w * m + k < n * m"
proof -
  have "w * m + k < w * m + m" using assms(2) by simp
  also have "\<dots> = Suc w * m" by simp
  also have "\<dots> \<le> n * m" using assms(1) by (intro mult_le_mono1) simp
  finally show ?thesis .
qed

lemma env_idxes_nth:
  assumes "w < length envs" and "k < m"
  shows "SequentialReplayBuffer_env_idxes envs m ! (w * m + k) = envs ! w"
proof -
  have "list_all (\<lambda>r. length r = m) (map (replicate m) envs)"
    by (simp add: list_all_iff)
  then have "concat (map (replicate m) envs) ! (w * m + k) = map (replicate m) envs ! w ! k"
    using assms by (intro concat_rect_nth) simp_all
  then show ?thesis using assms by (simp add: SequentialReplayBuffer_env_idxes_def)
qed

lemma view2_nth:
  assumes "w < n" and "k < m" and "length xs = n * m"
  shows "length (view2 n m xs) = n" and "length (view2 n m xs ! w) = m"
    and "view2 n m xs ! w ! k = xs ! (w * m + k)"
proof -
  have p: "w * m + m \<le> n * m"
    using assms(1) mult_le_mono1[of "Suc w" n m] by simp
  show "length (view2 n m xs) = n" by (simp add: view2_def)
  show "length (view2 n m xs ! w) = m"
    using assms p by (simp add: view2_def)
  show "view2 n m xs ! w ! k = xs ! (w * m + k)"
    using assms p by (simp add: view2_def)
qed

lemma collect_Inr: "collect xs = Inr ys \<Longrightarrow> xs = map Some ys"
  by (induction xs arbitrary: ys rule: collect.induct) (auto split: sum.splits)

lemma td_gather_Inr:
  assumes "td_gather t idxs envs = Inr cells"
  shows "length cells = length idxs" and "length envs = length idxs"
    and "p < length idxs \<Longrightarrow> td_cell t (idxs ! p) (envs ! p) = Some (cells ! p)"
proof -
  have l: "length idxs = length envs"
    and c: "collect (map (\<lambda>(i, e). td_cell t i e) (zip idxs envs)) = Inr cells"
    using assms by (auto simp: td_gather_def split: if_splits)
  have m: "map (\<lambda>(i, e). td_cell t i e) (zip idxs envs) = map Some cells"
    using collect_Inr[OF c] .
  then have "length (zip idxs envs) = length cells"
    using length_map[of "\<lambda>(i, e). td_cell t i e" "zip idxs envs"] length_map[of Some cells]
    by simp
  then show "length cells = length idxs" using l by simp
  show "length envs = length idxs" using l by simp
  show "td_cell t (idxs ! p) (envs ! p) = Some (cells ! p)" if "p < length idxs"
  proof -
    have "map (\<lambda>(i, e). td_cell t i e) (zip idxs envs) ! p = map Some cells ! p"
      using m by simp
    then show ?thesis
      using that l \<open>length cells = length idxs\<close> by simp
  qed
qed

text \<open>
  What \<^verbatim>\<open>SequentialReplayBuffer._get_samples\<close> returns for a tensor of windows of shape
  \<open>(batch_dim, m)\<close>: for window \<open>w\<close>, the records at its \<open>m\<close> slots, all read from the
  environment that is the \<open>w\<close>-th of the \<open>batch_dim\<close> draws.
\<close>

lemma sequential_get_samples_cells:
  assumes "SequentialReplayBuffer_get_samples b batch_idxes nxt g = Inr (smp, g')"
    and "list_all (\<lambda>r. length r = m) batch_idxes"
    and "w < length batch_idxes"
  shows "length smp = length batch_idxes \<and> length (smp ! w) = m \<and> 0 < m
    \<and> 0 \<le> int (g w) mod n_envs b \<and> int (g w) mod n_envs b < n_envs b
    \<and> (\<exists>t. buf b = Some t
          \<and> (\<forall>k < m. td_cell t (batch_idxes ! w ! k) (int (g w) mod n_envs b)
                       = Some (smp ! w ! k)))"
proof -
  let ?n = "length batch_idxes"
  have m: "(case batch_idxes of [] \<Rightarrow> 0 | r # _ \<Rightarrow> length r) = m"
    using assms(2,3) by (cases batch_idxes) auto
  obtain envs t sample where
    r: "randint 0 (n_envs b) (int ?n) g = Inr (envs, g')"
    and m0: "m \<noteq> 0"
    and t: "buf b = Some t"
    and ga: "td_gather t (concat batch_idxes) (SequentialReplayBuffer_env_idxes envs m) = Inr sample"
    and smp: "smp = view2 ?n m sample"
    using assms(1)
    unfolding SequentialReplayBuffer_get_samples_def SequentialReplayBuffer_window_envs_def
      Let_def m
    by (auto split: sum.splits prod.splits option.splits if_splits)
  have e: "0 < n_envs b" using randint_Inr(1)[OF r] .
  have le: "length envs = ?n" using randint_Inr(3)[OF r] by simp
  have ew: "envs ! w = int (g w) mod n_envs b"
    using randint_Inr(4)[OF r] assms(3) by simp
  have ls: "length sample = ?n * m"
    using td_gather_Inr(1)[OF ga] length_concat_rect[OF assms(2)] by simp
  have cell: "td_cell t (batch_idxes ! w ! k) (int (g w) mod n_envs b) = Some (smp ! w ! k)"
    if k: "k < m" for k
  proof -
    have p: "w * m + k < length (concat batch_idxes)"
      using rect_position[OF assms(3) k] length_concat_rect[OF assms(2)] by simp
    have "td_cell t (concat batch_idxes ! (w * m + k))
            (SequentialReplayBuffer_env_idxes envs m ! (w * m + k)) = Some (sample ! (w * m + k))"
      using td_gather_Inr(3)[OF ga p] .
    then show ?thesis
      using concat_rect_nth[OF assms(2,3) k] env_idxes_nth[of w envs k m] le assms(3) k ew
        view2_nth(3)[OF assms(3) k ls] smp
      by simp
  qed
  have "length smp = ?n" using smp by (simp add: view2_def)
  moreover have "0 < m \<Longrightarrow> length (smp ! w) = m"
    using view2_nth(2)[OF assms(3) _ ls, of 0] smp by simp
  moreover have "m = 0 \<Longrightarrow> length (smp ! w) = m"
    using smp assms(3) by (simp add: view2_def)
  ultimately show ?thesis
    using e t cell m0 by (cases "m = 0") auto
qed

lemma reshape_permute_nth:
  assumes "reshape_permute ns bs sl smp = Inr res"
  shows "0 \<le> ns" and "0 \<le> bs" and "length res = nat ns"
    and "i < nat ns \<Longrightarrow> length (res ! i) = nat sl"
    and "i < nat ns \<Longrightarrow> k < nat sl \<Longrightarrow> length (res ! i ! k) = nat bs"
    and "i < nat ns \<Longrightarrow> k < nat sl \<Longrightarrow> j < nat bs \<Longrightarrow>
           res ! i ! k ! j = smp ! (i * nat bs + j) ! k"
  using assms by (auto simp: reshape_permute_def split: if_splits)

lemma sequential_sample_parts:
  assumes "SequentialReplayBuffer_sample b bs nxt cl sl ns g = (Inr (res, g2), b')"
  shows "\<exists>starts g1 idxes smp.
      SequentialReplayBuffer_start_idxes b (bs * ns) sl g = Inr (starts, g1)
    \<and> SequentialReplayBuffer_idxes b starts sl = Inr idxes
    \<and> SequentialReplayBuffer_get_samples b idxes False g1 = Inr (smp, g2)
    \<and> reshape_permute ns bs sl smp = Inr res \<and> 0 < bs * ns"
  using assms
  by (auto simp: SequentialReplayBuffer_sample_def Let_def
      split: sum.splits prod.splits option.splits list.splits if_splits)

lemma start_idxes_rng:
  assumes "SequentialReplayBuffer_start_idxes b n sl g = Inr (starts, g1)"
  shows "g1 = (\<lambda>i. g (i + nat n))" and "length starts = nat n"
  using assms randint_Inr(3,5)[of 0 _ n g _ g1]
  by (auto simp: SequentialReplayBuffer_start_idxes_def Let_def
      split: sum.splits prod.splits if_splits)

lemma card_mod_block:
  fixes E e k :: nat
  assumes "e < E"
  shows "finite {r. r < k * E \<and> r mod E = e} \<and> card {r. r < k * E \<and> r mod E = e} = k"
proof -
  have "{r. r < k * E \<and> r mod E = e} = (\<lambda>q. q * E + e) ` {..<k}"
  proof (intro set_eqI iffI)
    fix r assume "r \<in> {r. r < k * E \<and> r mod E = e}"
    then have r: "r < k * E" "r mod E = e" by simp_all
    have "r div E < k" using r(1) by (simp add: less_mult_imp_div_less)
    moreover have "r = r div E * E + e" using r(2) by (metis div_mult_mod_eq)
    ultimately show "r \<in> (\<lambda>q. q * E + e) ` {..<k}" by blast
  next
    fix r assume "r \<in> (\<lambda>q. q * E + e) ` {..<k}"
    then obtain q where q: "q < k" "r = q * E + e" by auto
    have "q * E + e < q * E + E" using assms by simp
    also have "\<dots> = Suc q * E" by simp
    also have "\<dots> \<le> k * E" using q(1) by (intro mult_le_mono1) simp
    finally have "r < k * E" using q(2) by simp
    then show "r \<in> {r. r < k * E \<and> r mod E = e}" using q(2) assms by simp
  qed
  moreover have "inj_on (\<lambda>q. q * E + e) {..<k}"
    using assms by (auto simp: inj_on_def)
  ultimately show ?thesis by (simp add: card_image)
qed

lemma card_list_all2:
  assumes "\<forall>e \<in> set es. finite {w. P w e} \<and> card {w. P w e} = k"
  shows "finite {ws. list_all2 P ws es} \<and> card {ws. list_all2 P ws es} = k ^ length es"
  using assms
proof (induction es)
  case Nil
  have "{ws. list_all2 P ws []} = {[]}" by auto
  then show ?case by simp
next
  case (Cons e es)
  have s: "{ws. list_all2 P ws (e # es)}
      = (\<lambda>(w, ws). w # ws) ` ({w. P w e} \<times> {ws. list_all2 P ws es})"
    by (auto simp: list_all2_Cons2)
  have i: "inj_on (\<lambda>(w, ws). w # ws) ({w. P w e} \<times> {ws. list_all2 P ws es})"
    by (auto simp: inj_on_def)
  have f: "finite {w. P w e}" "card {w. P w e} = k"
    and r: "finite {ws. list_all2 P ws es}" "card {ws. list_all2 P ws es} = k ^ length es"
    using Cons by simp_all
  show ?case
    unfolding s using i f r by (simp add: card_image card_cartesian_product)
qed

text \<open>
  The environments of \<open>n\<close> windows as a function of the \<open>n\<close> raw words the generator gives
  for them: each list of environments in \<open>[0, n_envs)\<close> is the image of as many lists of
  raw words below \<open>k * n_envs\<close> as any other, \<open>k ^ n\<close> of them.
\<close>

lemma window_envs_count:
  assumes E: "0 < n_envs b" and "\<forall>e \<in> set es. 0 \<le> e \<and> e < n_envs b"
  shows "card {ws. length ws = length es \<and> (\<forall>x \<in> set ws. x < k * nat (n_envs b))
               \<and> map_sum id fst (SequentialReplayBuffer_window_envs b (length es) (nth ws))
                   = Inr es}
           = k ^ length es"
proof -
  let ?P = "\<lambda>w e. w < k * nat (n_envs b) \<and> int w mod n_envs b = e"
  have env: "map_sum id fst (SequentialReplayBuffer_window_envs b n (nth ws))
      = Inr (map (\<lambda>i. int (ws ! i) mod n_envs b) [0..<n])" for n ws
    using E by (simp add: SequentialReplayBuffer_window_envs_def randint_def)
  have eq: "length ws = length es \<and> (\<forall>x \<in> set ws. x < k * nat (n_envs b))
        \<and> map (\<lambda>i. int (ws ! i) mod n_envs b) [0..<length es] = es
      \<longleftrightarrow> list_all2 ?P ws es" for ws
  proof
    assume a: "length ws = length es \<and> (\<forall>x \<in> set ws. x < k * nat (n_envs b))
        \<and> map (\<lambda>i. int (ws ! i) mod n_envs b) [0..<length es] = es"
    have "?P (ws ! i) (es ! i)" if i: "i < length ws" for i
    proof -
      have "ws ! i \<in> set ws" using i by simp
      then have "ws ! i < k * nat (n_envs b)" using a by blast
      moreover have "int (ws ! i) mod n_envs b = es ! i"
      proof -
        have il: "i < length es" using a i by simp
        have "es ! i = map (\<lambda>i. int (ws ! i) mod n_envs b) [0..<length es] ! i"
          using a by presburger
        also have "\<dots> = int (ws ! i) mod n_envs b" using il by simp
        finally show ?thesis by simp
      qed
      ultimately show ?thesis by simp
    qed
    then show "list_all2 ?P ws es" using a by (simp add: list_all2_conv_all_nth)
  next
    assume a: "list_all2 ?P ws es"
    then have l: "length ws = length es" and n: "\<forall>i < length ws. ?P (ws ! i) (es ! i)"
      by (simp_all add: list_all2_conv_all_nth)
    have "\<forall>x \<in> set ws. x < k * nat (n_envs b)"
      using n by (auto simp: in_set_conv_nth)
    moreover have "map (\<lambda>i. int (ws ! i) mod n_envs b) [0..<length es] = es"
      using n l by (intro nth_equalityI) simp_all
    ultimately show "length ws = length es \<and> (\<forall>x \<in> set ws. x < k * nat (n_envs b))
        \<and> map (\<lambda>i. int (ws ! i) mod n_envs b) [0..<length es] = es"
      using l by simp
  qed
  have "{ws. length ws = length es \<and> (\<forall>x \<in> set ws. x < k * nat (n_envs b))
               \<and> map_sum id fst (SequentialReplayBuffer_window_envs b (length es) (nth ws))
                   = Inr es}
      = {ws. list_all2 ?P ws es}"
    unfolding env using eq by simp
  moreover have "finite {w. ?P w e} \<and> card {w. ?P w e} = k" if "e \<in> set es" for e
  proof -
    have e: "0 \<le> e" "e < n_envs b" using assms that by simp_all
    have conv: "int x mod n_envs b = int (x mod nat (n_envs b))" for x
      using E by (simp add: zmod_int)
    have "{w. ?P w e} = {r. r < k * nat (n_envs b) \<and> r mod nat (n_envs b) = nat e}"
      unfolding conv using e by (auto simp: int_eq_iff)
    then show ?thesis
      using card_mod_block[of "nat e" "nat (n_envs b)" k] e by simp
  qed
  ultimately show ?thesis using card_list_all2[of es ?P k] by simp
qed


text \<open>
  \<^bold>\<open>C8.\<close> When \<^verbatim>\<open>SequentialReplayBuffer.sample\<close> returns, entry \<open>(i, k, j)\<close> of its result
  of shape \<open>[n_samples, sequence_length, batch_size]\<close> is step \<open>k\<close> of window
  \<open>w = i * batch_size + j\<close>: the record at slot \<open>(start w + k) mod buffer_size\<close> of one
  environment, the same for every step \<open>k\<close> of the window. The environments are drawn by
  one \<^verbatim>\<open>randint(0, n_envs)\<close> of \<open>batch_dim\<close> values after the starts: the environment of
  window \<open>w\<close> lies in \<open>[0, n_envs)\<close> and is reduced from a raw word of its own, the word
  \<open>batch_dim + w\<close> of the generator, so it is chosen per window and not per step. Every
  assignment of environments to the windows is the image of equally many lists of raw
  words (\<open>k ^ batch_dim\<close> of those below \<open>k * n_envs\<close>): over equally likely raw words the
  environments are uniform over \<open>[0, n_envs)\<close> and independent from window to window.
\<close>

theorem sequential_sample_one_environment:
  assumes "SequentialReplayBuffer_sample b bs nxt cl sl ns g = (Inr (res, g2), b')"
  shows "\<exists>starts g1 t.
      SequentialReplayBuffer_start_idxes b (bs * ns) sl g = Inr (starts, g1)
    \<and> buf b = Some t \<and> 0 < bs \<and> 0 < ns \<and> 0 < sl \<and> 0 < n_envs b
    \<and> length starts = nat (bs * ns)
    \<and> length res = nat ns
    \<and> (\<forall>i < nat ns. length (res ! i) = nat sl
         \<and> (\<forall>k < nat sl. length (res ! i ! k) = nat bs
              \<and> (\<forall>j < nat bs.
                   td_cell t ((starts ! (i * nat bs + j) + int k) mod buffer_size b)
                             (int (g (nat (bs * ns) + (i * nat bs + j))) mod n_envs b)
                     = Some (res ! i ! k ! j))))
    \<and> (\<forall>envs g'. SequentialReplayBuffer_window_envs b (nat (bs * ns)) g1 = Inr (envs, g') \<longrightarrow>
          (\<forall>w < nat (bs * ns). envs ! w = int (g (nat (bs * ns) + w)) mod n_envs b
              \<and> 0 \<le> envs ! w \<and> envs ! w < n_envs b))
    \<and> (\<forall>es k. length es = nat (bs * ns) \<and> (\<forall>e \<in> set es. 0 \<le> e \<and> e < n_envs b) \<longrightarrow>
          card {ws. length ws = length es \<and> (\<forall>x \<in> set ws. x < k * nat (n_envs b))
                  \<and> map_sum id fst (SequentialReplayBuffer_window_envs b (length es) (nth ws))
                      = Inr es}
            = k ^ nat (bs * ns))"
proof -
  let ?N = "nat (bs * ns)"
  obtain starts g1 idxes smp where
    st: "SequentialReplayBuffer_start_idxes b (bs * ns) sl g = Inr (starts, g1)"
    and ix: "SequentialReplayBuffer_idxes b starts sl = Inr idxes"
    and gs: "SequentialReplayBuffer_get_samples b idxes False g1 = Inr (smp, g2)"
    and rp: "reshape_permute ns bs sl smp = Inr res"
    and pos: "0 < bs * ns"
    using sequential_sample_parts[OF assms] by blast
  have g1: "g1 = (\<lambda>i. g (i + ?N))" and ls: "length starts = ?N"
    using start_idxes_rng[OF st] by simp_all
  have li: "length idxes = ?N" using idxes_windows(1)[OF ix] ls by simp
  have rect: "list_all (\<lambda>r. length r = nat sl) idxes"
    using idxes_windows(2)[OF ix] li ls by (simp add: list_all_length)
  have ns: "0 < ns" and bs: "0 < bs"
    using reshape_permute_nth(1,2)[OF rp] pos by (auto simp: zero_less_mult_iff)
  have N: "?N = nat ns * nat bs"
    using ns bs by (simp add: nat_mult_distrib mult.commute)
  have N0: "0 < ?N" using pos by simp
  have w0: "0 < length idxes" using li N0 by simp
  obtain t where t: "buf b = Some t" and sl: "0 < nat sl" and E: "0 < n_envs b"
    using sequential_get_samples_cells[OF gs rect w0] by (auto simp: zero_less_iff_neq_zero)
  have cell: "td_cell t ((starts ! w + int k) mod buffer_size b) (int (g (?N + w)) mod n_envs b)
      = Some (smp ! w ! k)" if w: "w < ?N" and k: "k < nat sl" for w k
  proof -
    have wl: "w < length idxes" using w li by simp
    have "td_cell t (idxes ! w ! k) (int (g1 w) mod n_envs b) = Some (smp ! w ! k)"
      using sequential_get_samples_cells[OF gs rect wl] t k by auto
    moreover have "idxes ! w ! k = (starts ! w + int k) mod buffer_size b"
      using idxes_windows(3)[OF ix _ k, of w] w ls by simp
    ultimately show ?thesis by (simp add: g1 add.commute)
  qed
  have entries: "length (res ! i) = nat sl
         \<and> (\<forall>k < nat sl. length (res ! i ! k) = nat bs
              \<and> (\<forall>j < nat bs.
                   td_cell t ((starts ! (i * nat bs + j) + int k) mod buffer_size b)
                             (int (g (?N + (i * nat bs + j))) mod n_envs b)
                     = Some (res ! i ! k ! j)))" if i: "i < nat ns" for i
  proof (intro conjI allI impI)
    show "length (res ! i) = nat sl" using reshape_permute_nth(4)[OF rp i] .
  next
    fix k assume k: "k < nat sl"
    show "length (res ! i ! k) = nat bs" using reshape_permute_nth(5)[OF rp i k] .
  next
    fix k j assume k: "k < nat sl" and j: "j < nat bs"
    have w: "i * nat bs + j < ?N" unfolding N using rect_position[OF i j] .
    show "td_cell t ((starts ! (i * nat bs + j) + int k) mod buffer_size b)
                             (int (g (?N + (i * nat bs + j))) mod n_envs b)
                     = Some (res ! i ! k ! j)"
      using cell[OF w k] reshape_permute_nth(6)[OF rp i k j] by simp
  qed
  have envs: "envs ! w = int (g (?N + w)) mod n_envs b \<and> 0 \<le> envs ! w \<and> envs ! w < n_envs b"
    if r: "SequentialReplayBuffer_window_envs b ?N g1 = Inr (envs, g')" and w: "w < ?N"
    for envs g' w
  proof -
    have "envs = map (\<lambda>i. 0 + int (g1 i) mod (n_envs b - 0)) [0..<nat (int ?N)]"
      using r randint_Inr(4)[of 0 "n_envs b" "int ?N" g1 envs g']
      by (simp add: SequentialReplayBuffer_window_envs_def)
    then have "envs ! w = int (g (?N + w)) mod n_envs b"
      using w by (simp add: g1 add.commute)
    then show ?thesis using E by simp
  qed
  have count: "card {ws. length ws = length es \<and> (\<forall>x \<in> set ws. x < k * nat (n_envs b))
                  \<and> map_sum id fst (SequentialReplayBuffer_window_envs b (length es) (nth ws))
                      = Inr es}
            = k ^ ?N"
    if "length es = ?N \<and> (\<forall>e \<in> set es. 0 \<le> e \<and> e < n_envs b)" for es k
    using window_envs_count[OF E, of es k] that by simp
  have sl': "0 < sl" using sl by simp
  show ?thesis
    using st t bs ns sl' E ls reshape_permute_nth(3)[OF rp] entries envs count
    by (intro exI[of _ starts] exI[of _ g1] exI[of _ t]) blast
qed

theorem sequential_sample_one_environment_witness:
  "(\<exists>g2. SequentialReplayBuffer_sample (after_add (fresh_buffer 3 2) tagged)
            2 False False 2 1 (\<lambda>i. i)
          = (Inr ([[[10, 21], [20, 31]]], g2), after_add (fresh_buffer 3 2) tagged))
   \<and> n_envs (after_add (fresh_buffer 3 2) tagged) = 2
   \<and> buffer_size (after_add (fresh_buffer 3 2) tagged) = 3
   \<and> (\<exists>starts g1 t.
         SequentialReplayBuffer_start_idxes (after_add (fresh_buffer 3 2) tagged) (2 * 1) 2
           (\<lambda>i. i) = Inr (starts, g1)
       \<and> buf (after_add (fresh_buffer 3 2) tagged) = Some t
       \<and> (\<forall>k < nat 2. \<forall>j < nat 2.
             td_cell t ((starts ! (0 * nat 2 + j) + int k) mod 3)
                       (int (nat (2 * 1) + (0 * nat 2 + j)) mod 2)
               = Some ([[[10, 21], [20, 31]]] ! 0 ! k ! j)))"
proof -
  let ?B = "after_add (fresh_buffer 3 2) tagged"
  let ?S = "SequentialReplayBuffer_sample ?B 2 False False 2 1 (\<lambda>i. i)"
  have "case fst ?S of Inl e \<Rightarrow> False | Inr (res, g2) \<Rightarrow> res = [[[10, 21], [20, 31]]]"
    by code_simp
  then obtain g2 where "fst ?S = Inr ([[[10, 21], [20, 31]]], g2)"
    by (cases "fst ?S") auto
  then have e: "?S = (Inr ([[[10, 21], [20, 31]]], g2), ?B)"
    using sequential_sample_state[of ?B 2 False False 2 1 "\<lambda>i. i"] by (cases ?S) simp
  have n: "n_envs ?B = 2" "buffer_size ?B = 3" by code_simp+
  obtain starts g1 t where
    st: "SequentialReplayBuffer_start_idxes ?B (2 * 1) 2 (\<lambda>i. i) = Inr (starts, g1)"
    and t: "buf ?B = Some t"
    and c: "\<forall>i < nat 1. \<forall>k < nat 2. \<forall>j < nat 2.
              td_cell t ((starts ! (i * nat 2 + j) + int k) mod buffer_size ?B)
                        (int (nat (2 * 1) + (i * nat 2 + j)) mod n_envs ?B)
                = Some ([[[10, 21], [20, 31]]] ! i ! k ! j)"
    using sequential_sample_one_environment[OF e] by blast
  have "\<forall>k < nat 2. \<forall>j < nat 2.
             td_cell t ((starts ! (0 * nat 2 + j) + int k) mod 3)
                       (int (nat (2 * 1) + (0 * nat 2 + j)) mod 2)
               = Some ([[[10, 21], [20, 31]]] ! 0 ! k ! j)"
    using c n by simp
  then show ?thesis using e n st t by blast
qed

subsection \<open>The samplers only read\<close>

text \<open>
  \<^bold>\<open>C9.\<close> \<^verbatim>\<open>ReplayBuffer.sample\<close> and \<^verbatim>\<open>SequentialReplayBuffer.sample\<close> end, whether they
  return or raise, in the state they started in: cursor, full flag and table are those of
  before the call, also when \<^verbatim>\<open>next_observations\<close> is attached to the sample.
\<close>

theorem samplers_leave_state:
  "snd (ReplayBuffer_sample observations b n nxt cl g) = b
   \<and> snd (SequentialReplayBuffer_sample b n nxt cl sl ns g) = b"
  by (simp add: ReplayBuffer_sample_def SequentialReplayBuffer_sample_def Let_def
      split: sum.splits prod.splits option.splits list.splits)

end
